theory Spec2Isabelle
  imports Main
begin

section \<open>The taildrop receive path: \<open>taildrop/send.go\<close>\<close>

text \<open>
  The development embeds \<open>incomingFile.Write\<close>, \<open>Manager.PutFile\<close> and \<open>sha256File\<close>.
  The file system is a map from paths to contents, every call into the operating system
  can fail (a fault oracle decides, by the position of the call in the event sequence),
  and every call leaves an event in a trace, so that statements about which calls are
  made, and in which order, can be written down.
\<close>

subsection \<open>Values\<close>

type_synonym path = string
type_synonym bytes = string \<comment> \<open>\<open>[]byte\<close>: one \<open>char\<close> is one byte\<close>
type_synonym ClientID = string
type_synonym time = int \<comment> \<open>\<open>time.Time\<close> in nanoseconds; \<open>0\<close> is the zero time, \<open>IsZero\<close>\<close>

text \<open>
  Go's \<open>error\<close> is an interface value that may be \<open>nil\<close>: it is an \<open>error option\<close>,
  \<open>None\<close> for \<open>nil\<close>. \<open>ErrNoTaildrop\<close>, \<open>ErrNotAccessible\<close> and \<open>ErrFileExists\<close> are the
  package's error variables, \<open>ErrUnexpectedBytes\<close> and \<open>ErrTooManyRetries\<close> the two
  \<open>errors.New\<close> values of \<open>PutFile\<close>, \<open>ErrNotExist\<close> what the operating system says about a
  missing file (the errors \<open>os.IsNotExist\<close> accepts), \<open>ErrInvalid\<close> its answer to a
  negative offset, \<open>ErrShortWrite\<close> is \<open>io.ErrShortWrite\<close>, and \<open>ErrIO\<close> is any other failure
  of a call into the operating system or of the reader.
\<close>

datatype error =
    ErrNoTaildrop
  | ErrNotAccessible
  | ErrFileExists
  | ErrUnexpectedBytes
  | ErrTooManyRetries
  | ErrNotExist path
  | ErrInvalid
  | ErrShortWrite
  | ErrIO string
  | ErrJoinDir string

datatype stat_result = StatNotExist | StatErr error | StatSize nat

datatype event =
    EvOpen path
  | EvSeekEnd path
  | EvSeekStart path int
  | EvTruncate path int
  | EvWrite path nat
  | EvClose path
  | EvLock
  | EvUnlock
  | EvStat path stat_result
  | EvRename path path
  | EvRemove path
  | EvHash path
  | EvNotify

text \<open>
  What \<open>PutFile\<close> uses and \<open>send.go\<close> does not declare is a parameter: the feature gate
  \<open>envknob.CanTaildrop\<close>, the platform test \<open>distro.Get() == distro.Unraid\<close>,
  \<open>Manager.joinDir\<close>, \<open>ClientID.partialSuffix\<close>, \<open>redactErr\<close>, \<open>NextFilename\<close>, the digest
  \<open>crypto/sha256\<close> computes, and the clock. \<open>io_fault k\<close> is the failure, if any, of the
  call into the operating system that is number \<open>k\<close> in the event sequence, and
  \<open>short_write k\<close> the number of bytes a failing write still puts into the file.
\<close>

record env =
  CanTaildrop :: bool
  Unraid :: bool
  joinDir :: "string \<Rightarrow> string \<Rightarrow> error + path"
  partialSuffix :: "ClientID \<Rightarrow> string"
  redactErr :: "error \<Rightarrow> error"
  NextFilename :: "path \<Rightarrow> path"
  sha256 :: "bytes \<Rightarrow> bytes"
  clock :: "nat \<Rightarrow> time"
  io_fault :: "nat \<Rightarrow> string option"
  short_write :: "nat \<Rightarrow> nat"

record os_state =
  files :: "path \<rightharpoonup> bytes"
  ticks :: nat
  trace :: "event list"

record handle =
  hpath :: path
  hpos :: nat

record reader =
  chunks :: "bytes list"
  rerr :: "string option"

type_synonym incomingFileKey = "ClientID \<times> string"

text \<open>
  \<open>incomingFile\<close> without the fields that are wiring: \<open>clock\<close> is the clock of \<open>env\<close>,
  \<open>w\<close> the handle of the partial file, \<open>sendFileNotify\<close> the notifier, whose calls are the
  \<open>EvNotify\<close> events, and \<open>mu\<close> a mutex. The fields \<open>size\<close> and \<open>done\<close> are \<open>fsize\<close> and
  \<open>fdone\<close> here.
\<close>

record incomingFile =
  started :: time
  fsize :: int
  partialPath :: string
  copied :: int
  fdone :: bool
  lastNotify :: time

record Manager =
  Dir :: string
  DirectFileMode :: bool
  AvoidFinalRename :: bool
  incomingFiles :: "incomingFileKey \<rightharpoonup> incomingFile"
  knownEmpty :: bool

subsection \<open>The operating system\<close>

definition emit :: "event \<Rightarrow> os_state \<Rightarrow> os_state" where
  "emit ev s = s\<lparr>trace := trace s @ [ev]\<rparr>"

definition fault :: "env \<Rightarrow> os_state \<Rightarrow> error option" where
  "fault env s = map_option ErrIO (io_fault env (length (trace s)))"

definition content :: "os_state \<Rightarrow> path \<Rightarrow> bytes" where
  "content s p = (case files s p of None \<Rightarrow> [] | Some c \<Rightarrow> c)"

definition Now :: "env \<Rightarrow> os_state \<Rightarrow> time \<times> os_state" where
  "Now env s = (clock env (ticks s), s\<lparr>ticks := ticks s + 1\<rparr>)"

text \<open>\<open>os.OpenFile(p, O_CREATE|O_RDWR, 0666)\<close>: creates an empty file when there is none,
  keeps the content of an existing one (no \<open>O_TRUNC\<close>), and starts at position 0.\<close>

definition os_OpenFile :: "env \<Rightarrow> path \<Rightarrow> os_state \<Rightarrow> (error + handle) \<times> os_state" where
  "os_OpenFile env p s =
     (case fault env s of
        Some e \<Rightarrow> (Inl e, emit (EvOpen p) s)
      | None \<Rightarrow> (Inr \<lparr>hpath = p, hpos = 0\<rparr>,
                 emit (EvOpen p) (s\<lparr>files := (files s)(p \<mapsto> content s p)\<rparr>)))"

text \<open>\<open>f.Seek(0, io.SeekEnd)\<close>\<close>

definition os_SeekEnd :: "env \<Rightarrow> handle \<Rightarrow> os_state \<Rightarrow> (error + int) \<times> handle \<times> os_state" where
  "os_SeekEnd env f s =
     (case fault env s of
        Some e \<Rightarrow> (Inl e, f, emit (EvSeekEnd (hpath f)) s)
      | None \<Rightarrow> (Inr (int (length (content s (hpath f)))),
                 f\<lparr>hpos := length (content s (hpath f))\<rparr>,
                 emit (EvSeekEnd (hpath f)) s))"

text \<open>\<open>f.Seek(off, io.SeekStart)\<close>\<close>

definition os_SeekStart :: "env \<Rightarrow> handle \<Rightarrow> int \<Rightarrow> os_state \<Rightarrow> error option \<times> handle \<times> os_state" where
  "os_SeekStart env f off s =
     (case fault env s of
        Some e \<Rightarrow> (Some e, f, emit (EvSeekStart (hpath f) off) s)
      | None \<Rightarrow>
          if off < 0 then (Some ErrInvalid, f, emit (EvSeekStart (hpath f) off) s)
          else (None, f\<lparr>hpos := nat off\<rparr>, emit (EvSeekStart (hpath f) off) s))"

text \<open>\<open>f.Truncate(off)\<close>: cuts the file, or pads it with zero bytes, to \<open>off\<close> bytes.\<close>

definition os_Truncate :: "env \<Rightarrow> handle \<Rightarrow> int \<Rightarrow> os_state \<Rightarrow> error option \<times> os_state" where
  "os_Truncate env f off s =
     (case fault env s of
        Some e \<Rightarrow> (Some e, emit (EvTruncate (hpath f) off) s)
      | None \<Rightarrow>
          if off < 0 then (Some ErrInvalid, emit (EvTruncate (hpath f) off) s)
          else (None, emit (EvTruncate (hpath f) off)
                  (s\<lparr>files := (files s)(hpath f \<mapsto>
                        take (nat off) (content s (hpath f)) @
                        replicate (nat off - length (content s (hpath f))) (CHR 0x00))\<rparr>)))"

text \<open>Writing \<open>q\<close> at position \<open>pos\<close> of a file with content \<open>c\<close>.\<close>

definition write_at :: "bytes \<Rightarrow> nat \<Rightarrow> bytes \<Rightarrow> bytes" where
  "write_at c pos q =
     (if q = [] then c
      else take pos c @ replicate (pos - length c) (CHR 0x00) @ q @ drop (pos + length q) c)"

text \<open>\<open>(*os.File).Write(p)\<close>: all of \<open>p\<close>, or on a failure the first bytes of it and an
  error.\<close>

definition file_Write :: "env \<Rightarrow> handle \<Rightarrow> bytes \<Rightarrow> os_state \<Rightarrow> (nat \<times> error option) \<times> handle \<times> os_state" where
  "file_Write env f p s =
     (let n = (case fault env s of
                 None \<Rightarrow> length p
               | Some e \<Rightarrow> min (short_write env (length (trace s))) (length p))
      in ((n, fault env s), f\<lparr>hpos := hpos f + n\<rparr>,
          emit (EvWrite (hpath f) n)
            (s\<lparr>files := (files s)(hpath f \<mapsto> write_at (content s (hpath f)) (hpos f) (take n p))\<rparr>)))"

text \<open>\<open>f.Close()\<close>\<close>

definition os_Close :: "env \<Rightarrow> handle \<Rightarrow> os_state \<Rightarrow> error option \<times> os_state" where
  "os_Close env f s = (fault env s, emit (EvClose (hpath f)) s)"

text \<open>\<open>os.Stat(p)\<close>, read as the \<open>switch\<close> of the caller reads it.\<close>

definition os_Stat :: "env \<Rightarrow> path \<Rightarrow> os_state \<Rightarrow> stat_result \<times> os_state" where
  "os_Stat env p s =
     (let r = (case fault env s of
                 Some e \<Rightarrow> StatErr e
               | None \<Rightarrow> (case files s p of None \<Rightarrow> StatNotExist | Some c \<Rightarrow> StatSize (length c)))
      in (r, emit (EvStat p r) s))"

text \<open>\<open>os.Rename(src, dst)\<close>: replaces whatever is at \<open>dst\<close>.\<close>

definition os_Rename :: "env \<Rightarrow> path \<Rightarrow> path \<Rightarrow> os_state \<Rightarrow> error option \<times> os_state" where
  "os_Rename env src dst s =
     (case fault env s of
        Some e \<Rightarrow> (Some e, emit (EvRename src dst) s)
      | None \<Rightarrow>
          (case files s src of
             None \<Rightarrow> (Some (ErrNotExist src), emit (EvRename src dst) s)
           | Some c \<Rightarrow> (None, emit (EvRename src dst)
                          (s\<lparr>files := ((files s)(src := None))(dst \<mapsto> c)\<rparr>))))"

text \<open>\<open>os.Remove(p)\<close>\<close>

definition os_Remove :: "env \<Rightarrow> path \<Rightarrow> os_state \<Rightarrow> error option \<times> os_state" where
  "os_Remove env p s =
     (case fault env s of
        Some e \<Rightarrow> (Some e, emit (EvRemove p) s)
      | None \<Rightarrow>
          (case files s p of
             None \<Rightarrow> (Some (ErrNotExist p), emit (EvRemove p) s)
           | Some c \<Rightarrow> (None, emit (EvRemove p) (s\<lparr>files := (files s)(p := None)\<rparr>))))"

text \<open>\<open>sha256File\<close>: opens the file, streams it through the digest and closes it; one
  event stands for the three calls.\<close>

definition sha256File :: "env \<Rightarrow> path \<Rightarrow> os_state \<Rightarrow> (error + bytes) \<times> os_state" where
  "sha256File env p s =
     (case fault env s of
        Some e \<Rightarrow> (Inl e, emit (EvHash p) s)
      | None \<Rightarrow>
          (case files s p of
             None \<Rightarrow> (Inl (ErrNotExist p), emit (EvHash p) s)
           | Some c \<Rightarrow> (Inr (sha256 env c), emit (EvHash p) s)))"

subsection \<open>The in-flight registry\<close>

text \<open>
  Modelled from the spec: \<open>m.incomingFiles\<close> is a \<open>syncs.Map\<close>, declared outside
  \<open>send.go\<close>. \<open>LoadOrInit\<close> returns the state registered for the key if there is one, and
  otherwise builds one with the factory, inserts it and reports that none existed; the
  two happen as one step. \<open>Delete\<close> removes the entry of a key, whether or not there is
  one. The factory of \<open>PutFile\<close> reads the clock, so it is a function of the state.
\<close>

definition LoadOrInit ::
  "('k \<rightharpoonup> 'v) \<Rightarrow> 'k \<Rightarrow> (os_state \<Rightarrow> 'v \<times> os_state) \<Rightarrow> os_state \<Rightarrow> ('v \<times> bool) \<times> ('k \<rightharpoonup> 'v) \<times> os_state" where
  "LoadOrInit reg k factory s =
     (case reg k of
        Some v \<Rightarrow> ((v, True), reg, s)
      | None \<Rightarrow> (case factory s of (v, s') \<Rightarrow> ((v, False), reg(k \<mapsto> v), s')))"

definition Delete :: "('k \<rightharpoonup> 'v) \<Rightarrow> 'k \<Rightarrow> ('k \<rightharpoonup> 'v)" where
  "Delete reg k = reg(k := None)"

subsection \<open>\<open>incomingFile.Write\<close>\<close>

definition Second :: int where
  "Second = 1000000000"

definition maxDuration :: int where
  "maxDuration = 2 ^ 63 - 1"

definition minDuration :: int where
  "minDuration = - (2 ^ 63)"

text \<open>\<open>t.Sub(u)\<close>: the difference as a \<open>time.Duration\<close>, which is an \<open>int64\<close> of nanoseconds
  and saturates.\<close>

definition Sub :: "time \<Rightarrow> time \<Rightarrow> int" where
  "Sub t u =
     (if t - u > maxDuration then maxDuration
      else if t - u < minDuration then minDuration
      else t - u)"

text \<open>
  The bookkeeping of \<open>Write\<close> (lines 42 to 57), once the underlying writer has taken \<open>n\<close>
  bytes: \<open>now\<close> is what \<open>f.clock.Now()\<close> returns, which is read only when \<open>n > 0\<close>. The
  result is the new state and \<open>needNotify\<close>; the deferred function calls \<open>sendFileNotify\<close>
  exactly when \<open>needNotify\<close> is set.
\<close>

definition Write_notify :: "incomingFile \<Rightarrow> nat \<Rightarrow> time \<Rightarrow> incomingFile \<times> bool" where
  "Write_notify f n now =
     (if 0 < n then
        (let f1 = f\<lparr>copied := copied f + int n\<rparr>
         in if lastNotify f1 = 0 \<or> Sub now (lastNotify f1) > Second
            then (f1\<lparr>lastNotify := now\<rparr>, True)
            else (f1, False))
      else (f, False))"

text \<open>\<open>Write\<close> on the partial file: the underlying write, the clock, the notifier.\<close>

definition Write ::
  "env \<Rightarrow> incomingFile \<Rightarrow> handle \<Rightarrow> bytes \<Rightarrow> os_state \<Rightarrow>
     (nat \<times> error option) \<times> incomingFile \<times> handle \<times> os_state" where
  "Write env f h p s =
     (case file_Write env h p s of
        ((n, err), h1, s1) \<Rightarrow>
          if 0 < n then
            (case Now env s1 of
               (now, s2) \<Rightarrow>
                 (case Write_notify f n now of
                    (f1, needNotify) \<Rightarrow>
                      ((n, err), f1, h1, if needNotify then emit EvNotify s2 else s2)))
          else ((n, err), f, h1, s1))"

text \<open>
  A sequence of writes through the writer, each given by the number of bytes the
  underlying writer took and the reading of the clock: the readings at which the
  notifier is called.
\<close>

fun notify_times :: "incomingFile \<Rightarrow> (nat \<times> time) list \<Rightarrow> time list" where
  "notify_times f [] = []"
| "notify_times f ((n, now) # ws) =
     (case Write_notify f n now of
        (f1, needNotify) \<Rightarrow> (if needNotify then [now] else []) @ notify_times f1 ws)"



subsection \<open>\<open>io.Copy\<close>\<close>

text \<open>
  \<open>io.Copy(inFile, r)\<close>: the reader hands over its chunks one by one and then ends, with
  \<open>io.EOF\<close> (\<open>rerr = None\<close>) or with an error. A chunk of no bytes is not written. A
  write that fails ends the copy with its error, a write that takes fewer bytes
  without an error ends it with \<open>io.ErrShortWrite\<close>. The result is the number of bytes
  written and the error.
\<close>

fun io_Copy ::
  "env \<Rightarrow> incomingFile \<Rightarrow> handle \<Rightarrow> bytes list \<Rightarrow> string option \<Rightarrow> int \<Rightarrow> os_state \<Rightarrow>
     (int \<times> error option) \<times> incomingFile \<times> handle \<times> os_state" where
  "io_Copy env f h [] re written s = ((written, map_option ErrIO re), f, h, s)"
| "io_Copy env f h (p # ps) re written s =
     (if p = [] then io_Copy env f h ps re written s
      else
        (case Write env f h p s of
           ((n, ew), f1, h1, s1) \<Rightarrow>
             (case ew of
                Some e \<Rightarrow> ((written + int n, Some e), f1, h1, s1)
              | None \<Rightarrow>
                  if n \<noteq> length p then ((written + int n, Some ErrShortWrite), f1, h1, s1)
                  else io_Copy env f1 h1 ps re (written + int n) s1)))"

subsection \<open>\<open>Manager.PutFile\<close>\<close>

text \<open>
  Modelled from the spec: \<open>redactErr\<close> is declared outside \<open>send.go\<close>. Redaction strips
  the path detail from the message of an error and returns an error of the same kind, so
  it is a function \<open>redactErr env\<close> on error values; where there is no error there is
  nothing to redact, and \<open>nil\<close> stays \<open>nil\<close>. The log line \<open>redactAndLogError\<close> writes is not
  part of the state.
\<close>

definition redactAndLogError :: "env \<Rightarrow> error option \<Rightarrow> error option" where
  "redactAndLogError env err = map_option (redactErr env) err"

text \<open>What is fixed once a call is admitted: lines 82 to 118.\<close>

record admitted =
  inFileKey :: incomingFileKey
  dstPath :: path
  partPath :: path
  avoidPartialRename :: bool
  inFile :: incomingFile

text \<open>
  Lines 74 to 121: the checks, the paths, the key and \<open>LoadOrInit\<close>. The result is
  \<open>Inl\<close> with what the call returns when it ends here, and \<open>Inr\<close> when the call goes on.
  A \<open>nil\<close> manager is handled in \<open>PutFile\<close>.
\<close>

definition PutFile_admit ::
  "env \<Rightarrow> Manager \<Rightarrow> os_state \<Rightarrow> ClientID \<Rightarrow> string \<Rightarrow> int \<Rightarrow>
     ((int \<times> error option) + admitted) \<times> Manager \<times> os_state" where
  "PutFile_admit env m s ident baseName len =
     (if Dir m = [] then (Inl (0, Some ErrNoTaildrop), m, s)
      else if \<not> CanTaildrop env then (Inl (0, Some ErrNoTaildrop), m, s)
      else if Unraid env \<and> \<not> DirectFileMode m then (Inl (0, Some ErrNotAccessible), m, s)
      else
        (case joinDir env (Dir m) baseName of
           Inl e \<Rightarrow> (Inl (0, Some e), m, s)
         | Inr dst \<Rightarrow>
             (let avoid = (DirectFileMode m \<and> AvoidFinalRename m);
                  id1 = (if avoid then [] else ident);
                  pp = dst @ partialSuffix env id1;
                  key = (id1, baseName)
              in (case LoadOrInit (incomingFiles m) key
                         (\<lambda>s0. case Now env s0 of
                                 (t, s1) \<Rightarrow>
                                   (\<lparr>started = t, fsize = len,
                                     partialPath = (if DirectFileMode m then pp else []),
                                     copied = 0, fdone = False, lastNotify = 0\<rparr>, s1)) s of
                    ((inF, loaded), reg, s1) \<Rightarrow>
                      if loaded then (Inl (0, Some ErrFileExists), m\<lparr>incomingFiles := reg\<rparr>, s1)
                      else (Inr \<lparr>inFileKey = key, dstPath = dst, partPath = pp,
                                 avoidPartialRename = avoid, inFile = inF\<rparr>,
                            m\<lparr>incomingFiles := reg\<rparr>, s1)))))"

text \<open>Line 122, the deferred \<open>m.incomingFiles.Delete(inFileKey)\<close>.\<close>

definition PutFile_release :: "Manager \<Rightarrow> admitted \<Rightarrow> Manager" where
  "PutFile_release m a = m\<lparr>incomingFiles := Delete (incomingFiles m) (inFileKey a)\<rparr>"

text \<open>
  Lines 145 to 159. \<open>Inl err\<close>: the call returns \<open>(0, err)\<close>. The variable \<open>err\<close> of line 151
  is the one of line 146, which is \<open>nil\<close> there.
\<close>

definition PutFile_resume ::
  "env \<Rightarrow> handle \<Rightarrow> int \<Rightarrow> os_state \<Rightarrow> (error option + handle) \<times> os_state" where
  "PutFile_resume env f offset s =
     (if offset \<noteq> 0 then
        (case os_SeekEnd env f s of
           (Inl e, f1, s1) \<Rightarrow> (Inl (redactAndLogError env (Some e)), s1)
         | (Inr currLength, f1, s1) \<Rightarrow>
             if offset < 0 \<or> offset > currLength
             then (Inl (redactAndLogError env None), s1)
             else
               (case os_SeekStart env f1 offset s1 of
                  (Some e, f2, s2) \<Rightarrow> (Inl (redactAndLogError env (Some e)), s2)
                | (None, f2, s2) \<Rightarrow>
                    (case os_Truncate env f2 offset s2 of
                       (Some e, s3) \<Rightarrow> (Inl (redactAndLogError env (Some e)), s3)
                     | (None, s3) \<Rightarrow> (Inr f2, s3))))
      else (Inr f, s))"

text \<open>Lines 196 to 207, the function that runs under \<open>renameMu\<close>.\<close>

definition stat_then_rename :: "env \<Rightarrow> path \<Rightarrow> path \<Rightarrow> os_state \<Rightarrow> (error + int) \<times> os_state" where
  "stat_then_rename env pp dst s =
     (case os_Stat env dst (emit EvLock s) of
        (StatNotExist, s1) \<Rightarrow>
          (case os_Rename env pp dst s1 of
             (Some e, s2) \<Rightarrow> (Inl e, emit EvUnlock s2)
           | (None, s2) \<Rightarrow> (Inr (- 1), emit EvUnlock s2))
      | (StatErr e, s1) \<Rightarrow> (Inl e, emit EvUnlock s1)
      | (StatSize n, s1) \<Rightarrow> (Inr (int n), emit EvUnlock s1))"

text \<open>\<open>computePartialSum\<close>, a \<open>sync.OnceValues\<close>: \<open>memo\<close> is the digest once it is computed.\<close>

definition computePartialSum ::
  "env \<Rightarrow> bytes option \<Rightarrow> path \<Rightarrow> os_state \<Rightarrow> (error + bytes) \<times> os_state" where
  "computePartialSum env memo pp s =
     (case memo of Some d \<Rightarrow> (Inr d, s) | None \<Rightarrow> sha256File env pp s)"

text \<open>
  The loop of lines 191 to 238, with \<open>maxRetries\<close> the first argument. \<open>Some r\<close>: the call
  returns \<open>r\<close>; \<open>None\<close>: the loop ended with a \<open>break\<close> and the call goes on at line 239.
\<close>

fun rename_loop ::
  "env \<Rightarrow> nat \<Rightarrow> path \<Rightarrow> path \<Rightarrow> int \<Rightarrow> bytes option \<Rightarrow> os_state \<Rightarrow>
     (int \<times> error option) option \<times> os_state" where
  "rename_loop env 0 pp dst fileLength memo s = (Some (0, Some ErrTooManyRetries), s)"
| "rename_loop env (Suc n) pp dst fileLength memo s =
     (case stat_then_rename env pp dst s of
        (Inl e, s1) \<Rightarrow> (Some (0, redactAndLogError env (Some e)), s1)
      | (Inr dstLength, s1) \<Rightarrow>
          if dstLength < 0 then (None, s1)
          else if dstLength = fileLength then
            (case computePartialSum env memo pp s1 of
               (Inl e, s2) \<Rightarrow> (Some (0, redactAndLogError env (Some e)), s2)
             | (Inr partialSum, s2) \<Rightarrow>
                 (case sha256File env dst s2 of
                    (Inl e, s3) \<Rightarrow> (Some (0, redactAndLogError env (Some e)), s3)
                  | (Inr dstSum, s3) \<Rightarrow>
                      if dstSum = partialSum then
                        (case os_Remove env pp s3 of
                           (Some e, s4) \<Rightarrow> (Some (0, redactAndLogError env (Some e)), s4)
                         | (None, s4) \<Rightarrow> (None, s4))
                      else rename_loop env n pp (NextFilename env dst) fileLength
                             (Some partialSum) s3))
          else rename_loop env n pp (NextFilename env dst) fileLength memo s1)"

text \<open>Lines 172 to 241: what happens to a partial file that is complete and closed.\<close>

definition PutFile_publish ::
  "env \<Rightarrow> Manager \<Rightarrow> admitted \<Rightarrow> int \<Rightarrow> os_state \<Rightarrow> (int \<times> error option) \<times> Manager \<times> os_state" where
  "PutFile_publish env m a fileLength s =
     (if avoidPartialRename a then
        ((fileLength, None),
         m\<lparr>incomingFiles := (incomingFiles m)(inFileKey a := map_option (\<lambda>f. f\<lparr>fdone := True\<rparr>) (incomingFiles m (inFileKey a))),
           knownEmpty := False\<rparr>,
         emit EvNotify s)
      else
        (case rename_loop env 10 (partPath a) (dstPath a) fileLength None s of
           (Some r, s1) \<Rightarrow> (r, m, s1)
         | (None, s1) \<Rightarrow> ((fileLength, None), m\<lparr>knownEmpty := False\<rparr>, emit EvNotify s1)))"

text \<open>
  Lines 141 to 242, the call once the partial file is open. The second component of the
  result is the variable \<open>err\<close> of the function (line 82) as the deferred function of line
  129 finds it: only \<open>io.Copy\<close> assigns it after the file is open, every other \<open>err\<close> is a
  new variable of an inner block. The state of the transfer is the object the registry
  points to, so the registry sees what \<open>Write\<close> did.
\<close>

definition PutFile_opened ::
  "env \<Rightarrow> Manager \<Rightarrow> admitted \<Rightarrow> handle \<Rightarrow> reader \<Rightarrow> int \<Rightarrow> int \<Rightarrow> os_state \<Rightarrow>
     (int \<times> error option) \<times> error option \<times> Manager \<times> os_state" where
  "PutFile_opened env m a f r offset len s =
     (case PutFile_resume env f offset s of
        (Inl err, s1) \<Rightarrow> ((0, err), None, m, s1)
      | (Inr f1, s1) \<Rightarrow>
          (case io_Copy env (inFile a) f1 (chunks r) (rerr r) 0 s1 of
             ((copyLength, err), inF, f2, s2) \<Rightarrow>
               (let m1 = m\<lparr>incomingFiles := (incomingFiles m)(inFileKey a \<mapsto> inF)\<rparr>
                in if err \<noteq> None then ((0, redactAndLogError env err), err, m1, s2)
                   else if 0 \<le> len \<and> copyLength \<noteq> len
                   then ((0, redactAndLogError env (Some ErrUnexpectedBytes)), None, m1, s2)
                   else
                     (case os_Close env f2 s2 of
                        (Some e, s3) \<Rightarrow> ((0, redactAndLogError env (Some e)), None, m1, s3)
                      | (None, s3) \<Rightarrow>
                          (case PutFile_publish env m1 a (offset + copyLength) s3 of
                             (res, m2, s4) \<Rightarrow> (res, None, m2, s4))))))"

text \<open>
  Lines 125 to 140: the open, the call, and the deferred function, which closes the
  handle and, when \<open>err\<close> is set and the final rename is avoided, removes the partial
  file; both ignore what the operating system answers.
\<close>

definition PutFile_body ::
  "env \<Rightarrow> Manager \<Rightarrow> admitted \<Rightarrow> reader \<Rightarrow> int \<Rightarrow> int \<Rightarrow> os_state \<Rightarrow>
     (int \<times> error option) \<times> Manager \<times> os_state" where
  "PutFile_body env m a r offset len s =
     (case os_OpenFile env (partPath a) s of
        (Inl e, s1) \<Rightarrow> ((0, redactAndLogError env (Some e)), m, s1)
      | (Inr f, s1) \<Rightarrow>
          (case PutFile_opened env m a f r offset len s1 of
             (res, err, m1, s2) \<Rightarrow>
               (let s3 = snd (os_Close env f s2)
                in (res, m1,
                    if err \<noteq> None \<and> avoidPartialRename a
                    then snd (os_Remove env (partPath a) s3)
                    else s3))))"

text \<open>\<open>PutFile\<close>: the receiver \<open>m\<close> may be \<open>nil\<close>.\<close>

definition PutFile ::
  "env \<Rightarrow> Manager option \<Rightarrow> os_state \<Rightarrow> ClientID \<Rightarrow> string \<Rightarrow> reader \<Rightarrow> int \<Rightarrow> int \<Rightarrow>
     (int \<times> error option) \<times> Manager option \<times> os_state" where
  "PutFile env mo s ident baseName r offset len =
     (case mo of
        None \<Rightarrow> ((0, Some ErrNoTaildrop), None, s)
      | Some m \<Rightarrow>
          (case PutFile_admit env m s ident baseName len of
             (Inl res, m1, s1) \<Rightarrow> (res, Some m1, s1)
           | (Inr a, m1, s1) \<Rightarrow>
               (case PutFile_body env m1 a r offset len s1 of
                  (res, m2, s2) \<Rightarrow> (res, Some (PutFile_release m2 a), s2))))"

subsection \<open>Calls in flight\<close>

text \<open>
  Several calls of \<open>PutFile\<close> on one manager. A call takes three steps: the admission
  (lines 74 to 121, with \<open>LoadOrInit\<close> as the one step the registry makes it), the body
  (lines 124 to 242 with the deferred close), and the deferred \<open>Delete\<close> of line 122; the
  steps of different calls interleave in any order. The body is one step here: what is
  stated about calls in flight is about the registry, and the body touches only the entry
  of its own key.
\<close>

datatype phase =
    Arriving
  | Admitted admitted
  | Releasing admitted "int \<times> error option"
  | Returned "int \<times> error option"

record call =
  c_ident :: ClientID
  c_baseName :: string
  c_reader :: reader
  c_offset :: int
  c_length :: int
  c_phase :: phase

definition call_step :: "env \<Rightarrow> Manager \<Rightarrow> os_state \<Rightarrow> call \<Rightarrow> Manager \<times> os_state \<times> call" where
  "call_step env m s c =
     (case c_phase c of
        Arriving \<Rightarrow>
          (case PutFile_admit env m s (c_ident c) (c_baseName c) (c_length c) of
             (Inl res, m1, s1) \<Rightarrow> (m1, s1, c\<lparr>c_phase := Returned res\<rparr>)
           | (Inr a, m1, s1) \<Rightarrow> (m1, s1, c\<lparr>c_phase := Admitted a\<rparr>))
      | Admitted a \<Rightarrow>
          (case PutFile_body env m a (c_reader c) (c_offset c) (c_length c) s of
             (res, m1, s1) \<Rightarrow> (m1, s1, c\<lparr>c_phase := Releasing a res\<rparr>))
      | Releasing a res \<Rightarrow> (PutFile_release m a, s, c\<lparr>c_phase := Returned res\<rparr>)
      | Returned res \<Rightarrow> (m, s, c))"

text \<open>The key a call holds while it is past admission and has not returned.\<close>

definition holds :: "call \<Rightarrow> incomingFileKey option" where
  "holds c =
     (case c_phase c of
        Arriving \<Rightarrow> None
      | Admitted a \<Rightarrow> Some (inFileKey a)
      | Releasing a res \<Rightarrow> Some (inFileKey a)
      | Returned res \<Rightarrow> None)"

text \<open>The states that calls can reach, starting from any manager and store with no call
  in flight.\<close>

inductive reachable :: "env \<Rightarrow> Manager \<times> os_state \<times> call list \<Rightarrow> bool" for env where
  start: "reachable env (m, s, [])"
| arrive: "reachable env (m, s, cs) \<Longrightarrow> c_phase c = Arriving \<Longrightarrow> reachable env (m, s, cs @ [c])"
| step: "reachable env (m, s, cs) \<Longrightarrow> i < length cs \<Longrightarrow> call_step env m s (cs ! i) = (m', s', c') \<Longrightarrow>
         reachable env (m', s', cs[i := c'])"

subsection \<open>Reading a trace\<close>

fun is_stat :: "event \<Rightarrow> bool" where
  "is_stat (EvStat p r) = True"
| "is_stat ev = False"

fun is_seek_or_truncate :: "event \<Rightarrow> bool" where
  "is_seek_or_truncate (EvSeekEnd p) = True"
| "is_seek_or_truncate (EvSeekStart p off) = True"
| "is_seek_or_truncate (EvTruncate p off) = True"
| "is_seek_or_truncate ev = False"

text \<open>
  The discipline of \<open>renameMu\<close>, as an automaton that reads a trace. A stat is made only
  as the first call under the lock; a rename is made only under the lock, right after a
  stat of its destination that said the destination does not exist; the lock is
  released right after the stat or the rename. Any other event needs the lock to be
  free. \<open>None\<close> is a trace that breaks the discipline.
\<close>

datatype lock_state = Unlocked | Locked | Absent path | Settled

fun lock_step :: "lock_state \<Rightarrow> event \<Rightarrow> lock_state option" where
  "lock_step Unlocked EvLock = Some Locked"
| "lock_step Unlocked EvUnlock = None"
| "lock_step Unlocked (EvStat d r) = None"
| "lock_step Unlocked (EvRename p d) = None"
| "lock_step Unlocked ev = Some Unlocked"
| "lock_step Locked (EvStat d r) = Some (if r = StatNotExist then Absent d else Settled)"
| "lock_step Locked ev = None"
| "lock_step (Absent d) (EvRename p d') = (if d' = d then Some Settled else None)"
| "lock_step (Absent d) ev = None"
| "lock_step Settled EvUnlock = Some Unlocked"
| "lock_step Settled ev = None"

fun lock_run :: "lock_state \<Rightarrow> event list \<Rightarrow> lock_state option" where
  "lock_run g [] = Some g"
| "lock_run g (ev # evs) = (case lock_step g ev of None \<Rightarrow> None | Some g' \<Rightarrow> lock_run g' evs)"

text \<open>
  \<open>advances pp k s s'\<close>: from \<open>s\<close> to \<open>s'\<close> the trace has grown by events that keep the
  discipline of the lock, at most \<open>k\<close> of them a stat, and every file other than \<open>pp\<close>
  that was there is still there, with the content it had.
\<close>

definition advances :: "path \<Rightarrow> nat \<Rightarrow> os_state \<Rightarrow> os_state \<Rightarrow> bool" where
  "advances pp k s s' \<longleftrightarrow>
     (\<exists>evs. trace s' = trace s @ evs \<and> lock_run Unlocked evs = Some Unlocked \<and>
            length (filter is_stat evs) \<le> k) \<and>
     (\<forall>q c. q \<noteq> pp \<longrightarrow> files s q = Some c \<longrightarrow> files s' q = Some c)"

subsection \<open>A small installation\<close>

text \<open>
  Concrete values for the parameters, on which the theorems below are tried: the storage
  root joined with a slash, the partial suffix of the sender, no redaction, a next
  filename that appends a digit, the content itself as its digest, a clock that advances
  by half a second with each reading, and an operating system that never fails.
\<close>

definition demo_env :: env where
  "demo_env =
     \<lparr>CanTaildrop = True, Unraid = False,
      joinDir = (\<lambda>d b. Inr (d @ ''/'' @ b)),
      partialSuffix = (\<lambda>i. (if i = [] then [] else ''.'' @ i) @ ''.partial''),
      redactErr = (\<lambda>e. e),
      NextFilename = (\<lambda>p. p @ ''1''),
      sha256 = (\<lambda>b. b),
      clock = (\<lambda>k. 1 + int k * 500000000),
      io_fault = (\<lambda>k. None),
      short_write = (\<lambda>k. 0)\<rparr>"

definition demo_manager :: Manager where
  "demo_manager =
     \<lparr>Dir = ''d'', DirectFileMode = False, AvoidFinalRename = False,
      incomingFiles = Map.empty, knownEmpty = True\<rparr>"

definition demo_os :: "(path \<times> bytes) list \<Rightarrow> os_state" where
  "demo_os fs = \<lparr>files = map_of fs, ticks = 0, trace = []\<rparr>"

definition demo_reader :: "bytes list \<Rightarrow> reader" where
  "demo_reader cs = \<lparr>chunks = cs, rerr = None\<rparr>"

text \<open>A call that arrives: sender \<open>x\<close>, name \<open>a\<close>, five bytes.\<close>

definition demo_call :: call where
  "demo_call =
     \<lparr>c_ident = ''x'', c_baseName = ''a'', c_reader = demo_reader [''hello''],
      c_offset = 0, c_length = 5, c_phase = Arriving\<rparr>"

text \<open>The state of a transfer that has not written yet, and a call past admission.\<close>

definition demo_inFile :: incomingFile where
  "demo_inFile =
     \<lparr>started = 1, fsize = 6, partialPath = [], copied = 0, fdone = False, lastNotify = 0\<rparr>"

definition demo_admitted :: admitted where
  "demo_admitted =
     \<lparr>inFileKey = (''y'', ''a''), dstPath = ''d/a'', partPath = ''d/a.y.partial'',
      avoidPartialRename = False, inFile = demo_inFile\<rparr>"






definition demo_crowded :: os_state where
  "demo_crowded =
     demo_os ((''d/a.y.partial'', ''hello'') #
              map (\<lambda>i. ((NextFilename demo_env ^^ i) ''d/a'', ''other'')) [0..<10])"

definition demo_stale :: os_state where
  "demo_stale = demo_os [(''d/a.x.partial'', ''HELLOWORLD'')]"


section \<open>Properties\<close>

subsection \<open>An error comes with the length 0\<close>

lemma rename_loop_zero:
  "rename_loop env k pp dst fl memo s = (Some (n, e), s') \<Longrightarrow> n = 0"
proof (induction k arbitrary: dst memo s)
  case 0
  then show ?case by simp
next
  case (Suc k)
  then show ?case
    by (auto split: prod.splits sum.splits option.splits if_splits)
qed

lemma PutFile_publish_zero:
  "PutFile_publish env m a fl s = ((n, Some e), m', s') \<Longrightarrow> n = 0"
  by (auto simp: PutFile_publish_def split: if_splits prod.splits option.splits
           dest: rename_loop_zero)

lemma PutFile_opened_zero:
  "PutFile_opened env m a f r offset len s = ((n, Some e), err, m', s') \<Longrightarrow> n = 0"
  by (auto simp: PutFile_opened_def Let_def split: if_splits prod.splits option.splits sum.splits
           dest: PutFile_publish_zero)

lemma PutFile_body_zero:
  "PutFile_body env m a r offset len s = ((n, Some e), m', s') \<Longrightarrow> n = 0"
  by (auto simp: PutFile_body_def Let_def split: if_splits prod.splits option.splits sum.splits
           dest: PutFile_opened_zero)

lemma PutFile_admit_zero:
  "PutFile_admit env m s ident baseName len = (Inl (n, e), m', s') \<Longrightarrow> n = 0"
  by (auto simp: PutFile_admit_def Let_def split: if_splits prod.splits option.splits sum.splits)

text \<open>
  C9. Whenever \<open>PutFile\<close> returns an error that is not \<open>nil\<close>, the length it returns with
  it is 0: no caller gets a byte count together with an error.
\<close>

theorem PutFile_error_length_zero:
  "snd (fst (PutFile env mo s ident baseName r offset len)) \<noteq> None \<Longrightarrow>
   fst (fst (PutFile env mo s ident baseName r offset len)) = 0"
proof -
  assume e: "snd (fst (PutFile env mo s ident baseName r offset len)) \<noteq> None"
  obtain n err mo' s' where
    run: "PutFile env mo s ident baseName r offset len = ((n, err), mo', s')"
    by (metis prod.exhaust)
  with e have "err \<noteq> None" by simp
  with run have "n = 0"
    by (auto simp: PutFile_def split: option.splits prod.splits sum.splits
             dest: PutFile_admit_zero PutFile_body_zero)
  with run show ?thesis by simp
qed

text \<open>Five bytes sent where six were declared: the error, and the length 0.\<close>

theorem PutFile_error_length_zero_witness:
  "snd (fst (PutFile demo_env (Some demo_manager) (demo_os []) ''x'' ''a''
               (demo_reader [''hel'', ''lo'']) 0 6)) \<noteq> None \<and>
   fst (fst (PutFile demo_env (Some demo_manager) (demo_os []) ''x'' ''a''
               (demo_reader [''hel'', ''lo'']) 0 6)) = 0"
proof -
  have h: "snd (fst (PutFile demo_env (Some demo_manager) (demo_os []) ''x'' ''a''
                       (demo_reader [''hel'', ''lo'']) 0 6)) \<noteq> None"
    by code_simp
  from PutFile_error_length_zero [OF h] h show ?thesis by simp
qed

subsection \<open>Stepping through a call\<close>

lemma pairI: "fst p = a \<Longrightarrow> p = (a, snd p)"
  by (cases p) simp

lemma tripleI: "fst p = a \<Longrightarrow> p = (a, fst (snd p), snd (snd p))"
  by (cases p) simp

lemma PutFile_admitted:
  "PutFile_admit env m s ident baseName len = (Inr a, m1, s1) \<Longrightarrow>
   fst (PutFile env (Some m) s ident baseName r offset len) =
   fst (PutFile_body env m1 a r offset len s1)"
  by (cases "PutFile_body env m1 a r offset len s1") (simp add: PutFile_def)

lemma PutFile_body_opened:
  "os_OpenFile env (partPath a) s = (Inr f, s1) \<Longrightarrow>
   fst (PutFile_body env m a r offset len s) = fst (PutFile_opened env m a f r offset len s1)"
  by (cases "PutFile_opened env m a f r offset len s1") (simp add: PutFile_body_def Let_def)

text \<open>A call whose copy and close succeed returns what the finalize step returns.\<close>

lemma PutFile_opened_publish:
  assumes "PutFile_resume env f offset s = (Inr f1, s1)"
    and "io_Copy env (inFile a) f1 (chunks r) (rerr r) 0 s1 = ((copyLength, None), inF, f2, s2)"
    and "len < 0 \<or> copyLength = len"
    and "os_Close env f2 s2 = (None, s3)"
  shows "fst (PutFile_opened env m a f r offset len s) =
         fst (PutFile_publish env (m\<lparr>incomingFiles := (incomingFiles m)(inFileKey a \<mapsto> inF)\<rparr>) a
                (offset + copyLength) s3)"
  using assms
  by (cases "PutFile_publish env (m\<lparr>incomingFiles := (incomingFiles m)(inFileKey a \<mapsto> inF)\<rparr>) a
                (offset + copyLength) s3")
     (auto simp: PutFile_opened_def Let_def)

subsection \<open>A resume offset outside the partial file\<close>

lemma PutFile_resume_bad_offset:
  assumes "offset \<noteq> 0" and "fault env s = None"
    and "offset < 0 \<or> int (length (content s (hpath f))) < offset"
  shows "PutFile_resume env f offset s = (Inl None, emit (EvSeekEnd (hpath f)) s)"
  using assms by (auto simp: PutFile_resume_def os_SeekEnd_def redactAndLogError_def)

text \<open>
  C1. The claim is that a resume offset that is negative or beyond the end of the partial
  file makes the call fail, with an error that is not \<open>nil\<close>, and leaves the partial file
  as it is. The code leaves the file as it is, but the error it hands to
  \<open>redactAndLogError\<close> at line 151 is the \<open>nil\<close> of the seek that just succeeded: with a
  partial file of three bytes, the offsets 5 and -1 both return \<open>(0, nil)\<close>.
\<close>

theorem PutFile_bad_offset_nil_error:
  "fst (PutFile demo_env (Some demo_manager) (demo_os [(''d/a.x.partial'', ''abc'')]) ''x'' ''a''
          (demo_reader [''de'']) 5 2) = (0, None) \<and>
   files (snd (snd (PutFile demo_env (Some demo_manager) (demo_os [(''d/a.x.partial'', ''abc'')])
          ''x'' ''a'' (demo_reader [''de'']) 5 2))) ''d/a.x.partial'' = Some ''abc'' \<and>
   fst (PutFile demo_env (Some demo_manager) (demo_os [(''d/a.x.partial'', ''abc'')]) ''x'' ''a''
          (demo_reader [''de'']) (- 1) 2) = (0, None) \<and>
   files (snd (snd (PutFile demo_env (Some demo_manager) (demo_os [(''d/a.x.partial'', ''abc'')])
          ''x'' ''a'' (demo_reader [''de'']) (- 1) 2))) ''d/a.x.partial'' = Some ''abc''"
  by code_simp

subsection \<open>The declared length\<close>

lemma PutFile_opened_mismatch:
  assumes "0 \<le> len"
    and "PutFile_resume env f offset s = (Inr f1, s1)"
    and "io_Copy env (inFile a) f1 (chunks r) (rerr r) 0 s1 = ((copyLength, cerr), inF, f2, s2)"
    and "copyLength \<noteq> len"
  shows "\<exists>e. fst (PutFile_opened env m a f r offset len s) = (0, Some e)"
  using assms by (auto simp: PutFile_opened_def Let_def redactAndLogError_def)

text \<open>
  A call that declares a length \<open>len \<ge> 0\<close> and gets as far as the copy (it is admitted,
  the partial file opens, the resume step lets it through) fails with an error whenever
  \<open>io.Copy\<close> reports a number of bytes other than \<open>len\<close>, whatever else the copy reports.
\<close>

lemma PutFile_copy_mismatch_fails:
  assumes "0 \<le> len"
    and "PutFile_admit env m s ident baseName len = (Inr a, m1, s1)"
    and "os_OpenFile env (partPath a) s1 = (Inr f, s2)"
    and "PutFile_resume env f offset s2 = (Inr f1, s3)"
    and "io_Copy env (inFile a) f1 (chunks r) (rerr r) 0 s3 = ((copyLength, cerr), inF, f2, s4)"
    and "copyLength \<noteq> len"
  shows "\<exists>e. fst (PutFile env (Some m) s ident baseName r offset len) = (0, Some e)"
  using PutFile_opened_mismatch [OF assms(1,4,5,6)]
  by (simp add: PutFile_admitted [OF assms(2)] PutFile_body_opened [OF assms(3)])

text \<open>Six bytes declared, five sent.\<close>

lemma PutFile_copy_mismatch_fails_example:
  "\<exists>e. fst (PutFile demo_env (Some demo_manager) (demo_os []) ''x'' ''a''
               (demo_reader [''hel'', ''lo'']) 0 6) = (0, Some e)"
proof -
  define a0 where
    "a0 = \<lparr>inFileKey = (''x'', ''a''), dstPath = ''d/a'', partPath = ''d/a.x.partial'',
           avoidPartialRename = False,
           inFile = \<lparr>started = 1, fsize = 6, partialPath = [], copied = 0, fdone = False,
                     lastNotify = 0\<rparr>\<rparr>"
  define f0 where "f0 = \<lparr>hpath = ''d/a.x.partial'', hpos = 0\<rparr>"
  define A where "A = PutFile_admit demo_env demo_manager (demo_os []) ''x'' ''a'' 6"
  define B where "B = os_OpenFile demo_env (partPath a0) (snd (snd A))"
  define C where "C = PutFile_resume demo_env f0 0 (snd B)"
  define D where
    "D = io_Copy demo_env (inFile a0) f0 (chunks (demo_reader [''hel'', ''lo'']))
           (rerr (demo_reader [''hel'', ''lo''])) 0 (snd C)"
  have "fst A = Inr a0"
    unfolding A_def a0_def by code_simp
  then have h1: "PutFile_admit demo_env demo_manager (demo_os []) ''x'' ''a'' 6 =
                   (Inr a0, fst (snd A), snd (snd A))"
    unfolding A_def by (rule tripleI)
  have "fst B = Inr f0"
    unfolding B_def A_def a0_def f0_def by code_simp
  then have h2: "os_OpenFile demo_env (partPath a0) (snd (snd A)) = (Inr f0, snd B)"
    unfolding B_def by (rule pairI)
  have h3: "PutFile_resume demo_env f0 0 (snd B) = (Inr f0, snd C)"
    unfolding C_def by (simp add: PutFile_resume_def)
  have h4: "io_Copy demo_env (inFile a0) f0 (chunks (demo_reader [''hel'', ''lo'']))
              (rerr (demo_reader [''hel'', ''lo''])) 0 (snd C) =
            ((fst (fst D), snd (fst D)), fst (snd D), fst (snd (snd D)), snd (snd (snd D)))"
    unfolding D_def by simp
  have h5: "fst (fst D) \<noteq> 6"
    unfolding D_def C_def B_def A_def a0_def f0_def by code_simp
  show ?thesis
    by (rule PutFile_copy_mismatch_fails [OF _ h1 h2 h3 h4 h5]) simp
qed

text \<open>
  C6. The claim is that a call which declares a length \<open>len \<ge> 0\<close> fails with an error
  whenever the number of bytes copied from the reader is not \<open>len\<close>. The check of line 166
  does that for every call that gets to the copy. A call whose resume offset lies outside
  the partial file does not get there: it copies nothing and returns through line 151,
  with the \<open>nil\<close> error of the seek. Two bytes declared and offered, offset 5 on a partial
  file of three bytes: the events of the call are the open, the seek and the deferred
  close, no write among them, and the result is \<open>(0, nil)\<close>.
\<close>

theorem PutFile_declared_length_unchecked:
  "fst (PutFile demo_env (Some demo_manager) (demo_os [(''d/a.x.partial'', ''abc'')]) ''x'' ''a''
          (demo_reader [''de'']) 5 2) = (0, None) \<and>
   trace (snd (snd (PutFile demo_env (Some demo_manager)
                      (demo_os [(''d/a.x.partial'', ''abc'')]) ''x'' ''a''
                      (demo_reader [''de'']) 5 2))) =
     [EvOpen ''d/a.x.partial'', EvSeekEnd ''d/a.x.partial'', EvClose ''d/a.x.partial'']"
  by code_simp

subsection \<open>Admission and the registry\<close>

lemma PutFile_admit_Inr:
  assumes "PutFile_admit env m s ident baseName len = (Inr a, m1, s1)"
  shows "incomingFiles m (inFileKey a) = None"
    and "m1 = m\<lparr>incomingFiles := (incomingFiles m)(inFileKey a \<mapsto> inFile a)\<rparr>"
    and "inFileKey a = (if DirectFileMode m \<and> AvoidFinalRename m then [] else ident, baseName)"
    and "Dir m \<noteq> []" and "CanTaildrop env" and "\<not> (Unraid env \<and> \<not> DirectFileMode m)"
    and "joinDir env (Dir m) baseName = Inr (dstPath a)"
    and "partPath a = dstPath a @ partialSuffix env (fst (inFileKey a))"
    and "avoidPartialRename a = (DirectFileMode m \<and> AvoidFinalRename m)"
    and "files s1 = files s" and "trace s1 = trace s"
  using assms
  by (auto simp: PutFile_admit_def LoadOrInit_def Now_def Let_def
           split: if_splits sum.splits option.splits prod.splits)

lemma PutFile_admit_Inl:
  assumes "PutFile_admit env m s ident baseName len = (Inl res, m1, s1)"
  shows "m1 = m" and "s1 = s" and "fst res = 0" and "snd res \<noteq> None"
  using assms
  by (auto simp: PutFile_admit_def LoadOrInit_def Now_def Let_def
           split: if_splits sum.splits option.splits prod.splits)

lemma PutFile_admit_free:
  assumes "Dir m \<noteq> []" and "CanTaildrop env" and "\<not> (Unraid env \<and> \<not> DirectFileMode m)"
    and "joinDir env (Dir m) baseName = Inr dst"
    and "incomingFiles m (if DirectFileMode m \<and> AvoidFinalRename m then [] else ident, baseName) = None"
  shows "\<exists>a m1 s1. PutFile_admit env m s ident baseName len = (Inr a, m1, s1)"
  using assms
  by (auto simp: PutFile_admit_def LoadOrInit_def Now_def Let_def
           split: if_splits sum.splits option.splits prod.splits)

lemma PutFile_admit_taken:
  assumes "Dir m \<noteq> []" and "CanTaildrop env" and "\<not> (Unraid env \<and> \<not> DirectFileMode m)"
    and "joinDir env (Dir m) baseName = Inr dst"
    and "incomingFiles m (if DirectFileMode m \<and> AvoidFinalRename m then [] else ident, baseName) \<noteq> None"
  shows "PutFile_admit env m s ident baseName len = (Inl (0, Some ErrFileExists), m, s)"
  using assms
  by (auto simp: PutFile_admit_def LoadOrInit_def Now_def Let_def
           split: if_splits sum.splits option.splits prod.splits)

text \<open>What the body does to the manager: the configuration stays, the entries of other
  keys stay, and the entry of its own key stays an entry.\<close>

lemma PutFile_publish_manager:
  assumes "PutFile_publish env m a fl s = (res, m', s')"
  shows "Dir m' = Dir m \<and> DirectFileMode m' = DirectFileMode m \<and>
         AvoidFinalRename m' = AvoidFinalRename m \<and>
         (\<forall>k. k \<noteq> inFileKey a \<longrightarrow> incomingFiles m' k = incomingFiles m k) \<and>
         (incomingFiles m (inFileKey a) \<noteq> None \<longrightarrow> incomingFiles m' (inFileKey a) \<noteq> None)"
  using assms
  by (auto simp: PutFile_publish_def split: if_splits prod.splits option.splits)

lemma PutFile_opened_manager:
  assumes "PutFile_opened env m a f r offset len s = (res, err, m', s')"
  shows "Dir m' = Dir m \<and> DirectFileMode m' = DirectFileMode m \<and>
         AvoidFinalRename m' = AvoidFinalRename m \<and>
         (\<forall>k. k \<noteq> inFileKey a \<longrightarrow> incomingFiles m' k = incomingFiles m k) \<and>
         (incomingFiles m (inFileKey a) \<noteq> None \<longrightarrow> incomingFiles m' (inFileKey a) \<noteq> None)"
  using assms
  by (auto simp: PutFile_opened_def Let_def split: if_splits prod.splits option.splits sum.splits
           dest!: PutFile_publish_manager)

lemma PutFile_body_manager:
  assumes "PutFile_body env m a r offset len s = (res, m', s')"
  shows "Dir m' = Dir m \<and> DirectFileMode m' = DirectFileMode m \<and>
         AvoidFinalRename m' = AvoidFinalRename m \<and>
         (\<forall>k. k \<noteq> inFileKey a \<longrightarrow> incomingFiles m' k = incomingFiles m k) \<and>
         (incomingFiles m (inFileKey a) \<noteq> None \<longrightarrow> incomingFiles m' (inFileKey a) \<noteq> None)"
  using assms
  by (auto simp: PutFile_body_def Let_def split: if_splits prod.splits option.splits sum.splits
           dest!: PutFile_opened_manager)

text \<open>
  C5. A call that is admitted has its key in the registry while it runs, and when it
  returns, with whatever result, the key is out of the registry again: a following call
  for the same sender and name is admitted under the same key.
\<close>

theorem PutFile_deregisters:
  assumes adm: "PutFile_admit env m s ident baseName len = (Inr a, m1, s1)"
    and run: "PutFile env (Some m) s ident baseName r offset len = (res, mo', s')"
  shows "incomingFiles m1 (inFileKey a) = Some (inFile a) \<and>
         (\<exists>m'. mo' = Some m' \<and> incomingFiles m' (inFileKey a) = None \<and>
               (\<exists>a' m2 s2. PutFile_admit env m' s' ident baseName len' = (Inr a', m2, s2) \<and>
                            inFileKey a' = inFileKey a))"
proof -
  obtain res1 m2 s2 where body: "PutFile_body env m1 a r offset len s1 = (res1, m2, s2)"
    by (metis prod.exhaust)
  from adm body run have mo': "mo' = Some (PutFile_release m2 a)" and s': "s' = s2"
    by (auto simp: PutFile_def)
  let ?m' = "PutFile_release m2 a"
  note fr = PutFile_body_manager [OF body] PutFile_admit_Inr [OF adm]
  note k = PutFile_admit_Inr(3) [OF adm]
  note reg = PutFile_admit_Inr(2) [OF adm]
  have gone: "incomingFiles ?m' (inFileKey a) = None"
    by (simp add: PutFile_release_def Delete_def)
  have cfg: "Dir ?m' = Dir m" "DirectFileMode ?m' = DirectFileMode m"
    "AvoidFinalRename ?m' = AvoidFinalRename m"
    using fr by (simp_all add: PutFile_release_def)
  have key: "inFileKey a =
      (if DirectFileMode ?m' \<and> AvoidFinalRename ?m' then [] else ident, baseName)"
    using k cfg by simp
  have "\<exists>a' m3 s3. PutFile_admit env ?m' s' ident baseName len' = (Inr a', m3, s3)"
    using fr cfg gone key by (intro PutFile_admit_free [where dst = "dstPath a"]) auto
  then obtain a' m3 s3 where
    again: "PutFile_admit env ?m' s' ident baseName len' = (Inr a', m3, s3)"
    by blast
  have "inFileKey a' = inFileKey a"
    using PutFile_admit_Inr(3) [OF again] key by simp
  with again gone mo' reg show ?thesis by auto
qed

text \<open>An admitted call that fails (six bytes declared, five sent) leaves no entry.\<close>

theorem PutFile_deregisters_witness:
  "\<exists>m'. fst (snd (PutFile demo_env (Some demo_manager) (demo_os []) ''x'' ''a''
                    (demo_reader [''hel'', ''lo'']) 0 6)) = Some m' \<and>
         incomingFiles m' (''x'', ''a'') = None"
proof -
  define a0 where
    "a0 = \<lparr>inFileKey = (''x'', ''a''), dstPath = ''d/a'', partPath = ''d/a.x.partial'',
           avoidPartialRename = False,
           inFile = \<lparr>started = 1, fsize = 6, partialPath = [], copied = 0, fdone = False,
                     lastNotify = 0\<rparr>\<rparr>"
  define A where "A = PutFile_admit demo_env demo_manager (demo_os []) ''x'' ''a'' 6"
  define P where "P = PutFile demo_env (Some demo_manager) (demo_os []) ''x'' ''a''
                    (demo_reader [''hel'', ''lo'']) 0 6"
  have "fst A = Inr a0"
    unfolding A_def a0_def by code_simp
  then have h1: "PutFile_admit demo_env demo_manager (demo_os []) ''x'' ''a'' 6 =
                   (Inr a0, fst (snd A), snd (snd A))"
    unfolding A_def by (rule tripleI)
  have h2: "PutFile demo_env (Some demo_manager) (demo_os []) ''x'' ''a''
                    (demo_reader [''hel'', ''lo'']) 0 6 = (fst P, fst (snd P), snd (snd P))"
    unfolding P_def by simp
  from PutFile_deregisters [OF h1 h2] show ?thesis
    unfolding P_def a0_def by auto
qed

subsection \<open>One call per key\<close>

lemma call_step_cases:
  assumes "call_step env m s c = (m', s', c')"
  obtains
    (idle) "holds c = None" "holds c' = None" "m' = m"
  | (admit) k where "holds c = None" "holds c' = Some k" "incomingFiles m k = None"
      "incomingFiles m' k \<noteq> None" "\<And>k'. k' \<noteq> k \<Longrightarrow> incomingFiles m' k' = incomingFiles m k'"
  | (body) k where "holds c = Some k" "holds c' = Some k"
      "\<And>k'. k' \<noteq> k \<Longrightarrow> incomingFiles m' k' = incomingFiles m k'"
      "incomingFiles m k \<noteq> None \<Longrightarrow> incomingFiles m' k \<noteq> None"
  | (release) k where "holds c = Some k" "holds c' = None"
      "\<And>k'. k' \<noteq> k \<Longrightarrow> incomingFiles m' k' = incomingFiles m k'"
proof (cases "c_phase c")
  case Arriving
  show ?thesis
  proof (cases "PutFile_admit env m s (c_ident c) (c_baseName c) (c_length c)")
    case (fields x m1 s1)
    show ?thesis
    proof (cases x)
      case (Inl res)
      with fields have adm:
        "PutFile_admit env m s (c_ident c) (c_baseName c) (c_length c) = (Inl res, m1, s1)"
        by simp
      have "m1 = m" by (rule PutFile_admit_Inl(1) [OF adm])
      moreover from adm Arriving assms have "m' = m1" "c' = c\<lparr>c_phase := Returned res\<rparr>"
        by (simp_all add: call_step_def)
      ultimately show ?thesis
        using Arriving by (intro idle) (simp_all add: holds_def)
    next
      case (Inr a)
      with fields have adm:
        "PutFile_admit env m s (c_ident c) (c_baseName c) (c_length c) = (Inr a, m1, s1)"
        by simp
      note f = PutFile_admit_Inr(1,2) [OF adm]
      from adm Arriving assms have "m' = m1" "c' = c\<lparr>c_phase := Admitted a\<rparr>"
        by (simp_all add: call_step_def)
      with f Arriving show ?thesis
        by (intro admit [of "inFileKey a"]) (simp_all add: holds_def)
    qed
  qed
next
  case (Admitted a)
  obtain res m1 s1 where
    body': "PutFile_body env m a (c_reader c) (c_offset c) (c_length c) s = (res, m1, s1)"
    by (metis prod.exhaust)
  note f = PutFile_body_manager [OF body']
  from body' Admitted assms have "m' = m1" "c' = c\<lparr>c_phase := Releasing a res\<rparr>"
    by (simp_all add: call_step_def)
  with f Admitted show ?thesis
    by (intro body [of "inFileKey a"]) (auto simp: holds_def)
next
  case (Releasing a res)
  with assms have "m' = PutFile_release m a" "c' = c\<lparr>c_phase := Returned res\<rparr>"
    by (simp_all add: call_step_def)
  with Releasing show ?thesis
    by (intro release [of "inFileKey a"]) (simp_all add: holds_def PutFile_release_def Delete_def)
next
  case (Returned res)
  with assms have "m' = m" "c' = c"
    by (simp_all add: call_step_def)
  with Returned show ?thesis
    by (intro idle) (simp_all add: holds_def)
qed

lemma reachable_registry:
  "reachable env (m, s, cs) \<Longrightarrow>
   (\<forall>i<length cs. \<forall>k. holds (cs ! i) = Some k \<longrightarrow>
      incomingFiles m k \<noteq> None \<and> (\<forall>j<length cs. holds (cs ! j) = Some k \<longrightarrow> j = i))"
proof (induction "(m, s, cs)" arbitrary: m s cs rule: reachable.induct)
  case (start m s)
  then show ?case by simp
next
  case (arrive m s cs c)
  then have "holds c = None" by (simp add: holds_def)
  with arrive(2) show ?case
    by (auto simp: nth_append less_Suc_eq)
next
  case (step m s cs i m' s' c')
  note IH = step(2)
  have IH1: "incomingFiles m k \<noteq> None" if "a < length cs" "holds (cs ! a) = Some k" for a k
    using IH that by blast
  have IH2: "j = a" if "a < length cs" "j < length cs" "holds (cs ! a) = Some k"
                "holds (cs ! j) = Some k" for a j k
    using IH that by blast
  note i = step(3)
  let ?cs = "cs[i := c']"
  have nthi: "?cs ! i = c'" using i by simp
  have ntho: "?cs ! a = cs ! a" if "a \<noteq> i" for a using that by simp
  have "incomingFiles m' k \<noteq> None \<and> (\<forall>j<length cs. holds (?cs ! j) = Some k \<longrightarrow> j = a)"
    if a: "a < length cs" and h: "holds (?cs ! a) = Some k" for a k
    using step(4)
  proof (cases rule: call_step_cases)
    case idle
    from h idle nthi have ai: "a \<noteq> i" by auto
    with h have ha: "holds (cs ! a) = Some k" by (simp add: ntho)
    have "j = a" if "j < length cs" "holds (?cs ! j) = Some k" for j
    proof (cases "j = i")
      case True with that idle nthi show ?thesis by simp
    next
      case False with that IH2 [OF a _ ha] show ?thesis by (simp add: ntho)
    qed
    with IH1 [OF a ha] idle show ?thesis by blast
  next
    case (admit k0)
    show ?thesis
    proof (cases "a = i")
      case True
      with h nthi admit have k: "k = k0" by simp
      have "j = a" if "j < length cs" "holds (?cs ! j) = Some k" for j
      proof (cases "j = i")
        case True with \<open>a = i\<close> show ?thesis by simp
      next
        case False
        with that have "holds (cs ! j) = Some k0" by (simp add: ntho k)
        from IH1 [OF that(1) this] admit(3) show ?thesis by simp
      qed
      with k admit show ?thesis by blast
    next
      case False
      with h have ha: "holds (cs ! a) = Some k" by (simp add: ntho)
      from IH1 [OF a ha] admit(3) have kk: "k \<noteq> k0" by auto
      have "j = a" if "j < length cs" "holds (?cs ! j) = Some k" for j
      proof (cases "j = i")
        case True with that nthi admit(2) kk show ?thesis by simp
      next
        case False with that IH2 [OF a _ ha] show ?thesis by (simp add: ntho)
      qed
      with IH1 [OF a ha] admit(5) [OF kk] show ?thesis by auto
    qed
  next
    case (body k0)
    have ha: "holds (cs ! a) = Some k"
    proof (cases "a = i")
      case True with h nthi body show ?thesis by simp
    next
      case False with h show ?thesis by (simp add: ntho)
    qed
    have "j = a" if "j < length cs" "holds (?cs ! j) = Some k" for j
    proof -
      have "holds (cs ! j) = Some k"
      proof (cases "j = i")
        case True with that nthi body show ?thesis by simp
      next
        case False with that show ?thesis by (simp add: ntho)
      qed
      from IH2 [OF a that(1) ha this] show ?thesis .
    qed
    moreover have "incomingFiles m' k \<noteq> None"
      using IH1 [OF a ha] body(3,4) by (cases "k = k0") auto
    ultimately show ?thesis by blast
  next
    case (release k0)
    from h release nthi have ai: "a \<noteq> i" by auto
    with h have ha: "holds (cs ! a) = Some k" by (simp add: ntho)
    have kk: "k \<noteq> k0"
    proof
      assume "k = k0"
      with release(1) have "holds (cs ! i) = Some k" by simp
      from IH2 [OF a i ha this] ai show False by simp
    qed
    have "j = a" if "j < length cs" "holds (?cs ! j) = Some k" for j
    proof (cases "j = i")
      case True with that nthi release(2) show ?thesis by simp
    next
      case False with that IH2 [OF a _ ha] show ?thesis by (simp add: ntho)
    qed
    with IH1 [OF a ha] release(3) [OF kk] show ?thesis by auto
  qed
  then show ?case by simp
qed

text \<open>The three steps of a call, taken one after the other, are \<open>PutFile\<close>.\<close>

lemma PutFile_in_three_steps:
  assumes "c_phase c = Arriving"
    and "call_step env m s c = (m1, s1, c1)"
    and "call_step env m1 s1 c1 = (m2, s2, c2)"
    and "call_step env m2 s2 c2 = (m3, s3, c3)"
  shows "\<exists>res. c_phase c3 = Returned res \<and>
           PutFile env (Some m) s (c_ident c) (c_baseName c) (c_reader c) (c_offset c) (c_length c) =
             (res, Some m3, s3)"
proof (cases "PutFile_admit env m s (c_ident c) (c_baseName c) (c_length c)")
  case (fields x ma sa)
  show ?thesis
  proof (cases x)
    case (Inl res)
    with fields assms show ?thesis
      by (auto simp: call_step_def PutFile_def)
  next
    case (Inr a)
    obtain res mb sb where
      "PutFile_body env ma a (c_reader c) (c_offset c) (c_length c) sa = (res, mb, sb)"
      by (metis prod.exhaust)
    with Inr fields assms show ?thesis
      by (auto simp: call_step_def PutFile_def)
  qed
qed

text \<open>
  The configuration of the manager does not change, and a call that comes to hold a key
  has passed the checks of lines 74 to 85.
\<close>

lemma call_step_config:
  assumes "call_step env m s c = (m', s', c')"
  shows "Dir m' = Dir m" and "DirectFileMode m' = DirectFileMode m"
    and "AvoidFinalRename m' = AvoidFinalRename m"
    and "\<And>k. holds c' = Some k \<Longrightarrow>
           holds c = Some k \<or>
           (Dir m \<noteq> [] \<and> CanTaildrop env \<and> \<not> (Unraid env \<and> \<not> DirectFileMode m) \<and>
            (\<exists>dst. joinDir env (Dir m) (snd k) = Inr dst))"
proof -
  have "Dir m' = Dir m \<and> DirectFileMode m' = DirectFileMode m \<and>
        AvoidFinalRename m' = AvoidFinalRename m \<and>
        (\<forall>k. holds c' = Some k \<longrightarrow>
           holds c = Some k \<or>
           (Dir m \<noteq> [] \<and> CanTaildrop env \<and> \<not> (Unraid env \<and> \<not> DirectFileMode m) \<and>
            (\<exists>dst. joinDir env (Dir m) (snd k) = Inr dst)))"
  proof (cases "c_phase c")
    case Arriving
    show ?thesis
    proof (cases "PutFile_admit env m s (c_ident c) (c_baseName c) (c_length c)")
      case (fields x m1 s1)
      show ?thesis
      proof (cases x)
        case (Inl res)
        with fields have adm:
          "PutFile_admit env m s (c_ident c) (c_baseName c) (c_length c) = (Inl res, m1, s1)"
          by simp
        have "m1 = m" by (rule PutFile_admit_Inl(1) [OF adm])
        moreover from adm Arriving assms have "m' = m1" "c' = c\<lparr>c_phase := Returned res\<rparr>"
          by (simp_all add: call_step_def)
        ultimately show ?thesis by (simp add: holds_def)
      next
        case (Inr a)
        with fields have adm:
          "PutFile_admit env m s (c_ident c) (c_baseName c) (c_length c) = (Inr a, m1, s1)"
          by simp
        note f = PutFile_admit_Inr [OF adm]
        from adm Arriving assms have "m' = m1" "c' = c\<lparr>c_phase := Admitted a\<rparr>"
          by (simp_all add: call_step_def)
        with f(2,3,4,5,6,7) show ?thesis by (auto simp: holds_def)
      qed
    qed
  next
    case (Admitted a)
    obtain res m1 s1 where
      body': "PutFile_body env m a (c_reader c) (c_offset c) (c_length c) s = (res, m1, s1)"
      by (metis prod.exhaust)
    note f = PutFile_body_manager [OF body']
    from body' Admitted assms have "m' = m1" "c' = c\<lparr>c_phase := Releasing a res\<rparr>"
      by (simp_all add: call_step_def)
    with f Admitted show ?thesis by (simp add: holds_def)
  next
    case (Releasing a res)
    with assms have "m' = PutFile_release m a" "c' = c\<lparr>c_phase := Returned res\<rparr>"
      by (simp_all add: call_step_def)
    then show ?thesis by (simp add: holds_def PutFile_release_def)
  next
    case (Returned res)
    with assms have "m' = m" "c' = c"
      by (simp_all add: call_step_def)
    then show ?thesis by simp
  qed
  then show "Dir m' = Dir m" and "DirectFileMode m' = DirectFileMode m"
    and "AvoidFinalRename m' = AvoidFinalRename m"
    and "\<And>k. holds c' = Some k \<Longrightarrow>
           holds c = Some k \<or>
           (Dir m \<noteq> [] \<and> CanTaildrop env \<and> \<not> (Unraid env \<and> \<not> DirectFileMode m) \<and>
            (\<exists>dst. joinDir env (Dir m) (snd k) = Inr dst))"
    by blast+
qed

lemma reachable_checks:
  "reachable env (m, s, cs) \<Longrightarrow>
   (\<forall>i<length cs. \<forall>k. holds (cs ! i) = Some k \<longrightarrow>
      Dir m \<noteq> [] \<and> CanTaildrop env \<and> \<not> (Unraid env \<and> \<not> DirectFileMode m) \<and>
      (\<exists>dst. joinDir env (Dir m) (snd k) = Inr dst))"
proof (induction "(m, s, cs)" arbitrary: m s cs rule: reachable.induct)
  case (start m s)
  then show ?case by simp
next
  case (arrive m s cs c)
  then have "holds c = None" by (simp add: holds_def)
  with arrive(2) show ?case
    by (auto simp: nth_append less_Suc_eq)
next
  case (step m s cs i m' s' c')
  note cfg = call_step_config [OF step(4)]
  have IH: "Dir m \<noteq> [] \<and> CanTaildrop env \<and> \<not> (Unraid env \<and> \<not> DirectFileMode m) \<and>
      (\<exists>dst. joinDir env (Dir m) (snd k) = Inr dst)"
    if "a < length cs" "holds (cs ! a) = Some k" for a k
    using step(2) that by blast
  have "Dir m' \<noteq> [] \<and> CanTaildrop env \<and> \<not> (Unraid env \<and> \<not> DirectFileMode m') \<and>
      (\<exists>dst. joinDir env (Dir m') (snd k) = Inr dst)"
    if a: "a < length cs" and h: "holds (cs[i := c'] ! a) = Some k" for a k
  proof (cases "a = i")
    case True
    with h step(3) have "holds c' = Some k" by simp
    from cfg(4) [OF this] show ?thesis
    proof
      assume "holds (cs ! i) = Some k"
      from IH [OF step(3) this] show ?thesis by (simp add: cfg(1,2))
    next
      assume "Dir m \<noteq> [] \<and> CanTaildrop env \<and> \<not> (Unraid env \<and> \<not> DirectFileMode m) \<and>
            (\<exists>dst. joinDir env (Dir m) (snd k) = Inr dst)"
      then show ?thesis by (simp add: cfg(1,2))
    qed
  next
    case False
    with h have "holds (cs ! a) = Some k" by simp
    from IH [OF a this] show ?thesis by (simp add: cfg(1,2))
  qed
  then show ?case by simp
qed

text \<open>
  C4. In every state that calls in flight can reach, a key is held by at most one call
  that is past admission and has not returned; and while a call holds the key, every
  call of \<open>PutFile\<close> that comes to that key returns \<open>ErrFileExists\<close> and leaves the manager
  and the operating system exactly as they were: no event, so no call into the file
  system, and no file created or changed.
\<close>

theorem PutFile_one_call_per_key:
  assumes "reachable env (m, s, cs)" and "i < length cs" and "holds (cs ! i) = Some key"
  shows "(\<forall>j<length cs. holds (cs ! j) = Some key \<longrightarrow> j = i) \<and>
         (\<forall>ident baseName r offset len.
             key = (if DirectFileMode m \<and> AvoidFinalRename m then [] else ident, baseName) \<longrightarrow>
             PutFile env (Some m) s ident baseName r offset len =
               ((0, Some ErrFileExists), Some m, s))"
proof -
  from reachable_registry [OF assms(1)] assms(2,3)
  have reg: "incomingFiles m key \<noteq> None"
    and one: "\<forall>j<length cs. holds (cs ! j) = Some key \<longrightarrow> j = i"
    by blast+
  from reachable_checks [OF assms(1)] assms(2,3)
  have chk: "Dir m \<noteq> []" "CanTaildrop env" "\<not> (Unraid env \<and> \<not> DirectFileMode m)"
    and "\<exists>dst. joinDir env (Dir m) (snd key) = Inr dst"
    by blast+
  then obtain dst where dst: "joinDir env (Dir m) (snd key) = Inr dst" by blast
  have "PutFile env (Some m) s ident baseName r offset len = ((0, Some ErrFileExists), Some m, s)"
    if "key = (if DirectFileMode m \<and> AvoidFinalRename m then [] else ident, baseName)"
    for ident baseName r offset len
  proof -
    from reg that have
      "incomingFiles m (if DirectFileMode m \<and> AvoidFinalRename m then [] else ident, baseName) \<noteq> None"
      by simp
    moreover from dst that have "joinDir env (Dir m) baseName = Inr dst" by simp
    ultimately show ?thesis
      using PutFile_admit_taken [OF chk, of baseName dst ident s len]
      by (simp add: PutFile_def)
  qed
  with one show ?thesis by blast
qed

text \<open>One call for \<open>(x, a)\<close> is admitted; a second one for the same key arrives.\<close>

theorem PutFile_one_call_per_key_witness:
  "PutFile demo_env
     (Some (fst (call_step demo_env demo_manager (demo_os []) demo_call)))
     (fst (snd (call_step demo_env demo_manager (demo_os []) demo_call)))
     ''x'' ''a'' (demo_reader [''hi'']) 0 2 =
   ((0, Some ErrFileExists),
    Some (fst (call_step demo_env demo_manager (demo_os []) demo_call)),
    fst (snd (call_step demo_env demo_manager (demo_os []) demo_call)))"
proof -
  define T where "T = call_step demo_env demo_manager (demo_os []) demo_call"
  have "reachable demo_env (demo_manager, demo_os [], [] @ [demo_call])"
    by (intro reachable.arrive reachable.start) (simp add: demo_call_def)
  then have r0: "reachable demo_env (demo_manager, demo_os [], [demo_call])"
    by simp
  have st: "call_step demo_env demo_manager (demo_os []) ([demo_call] ! 0) =
              (fst T, fst (snd T), snd (snd T))"
    by (simp add: T_def)
  have "reachable demo_env (fst T, fst (snd T), [demo_call][0 := snd (snd T)])"
    by (rule reachable.step [OF r0 _ st]) simp
  then have r1: "reachable demo_env (fst T, fst (snd T), [snd (snd T)])"
    by simp
  have h: "holds ([snd (snd T)] ! 0) = Some (''x'', ''a'')"
    unfolding T_def by code_simp
  have cfg: "(''x'', ''a'') =
             (if DirectFileMode (fst T) \<and> AvoidFinalRename (fst T) then [] else ''x'', ''a'')"
    unfolding T_def by code_simp
  from PutFile_one_call_per_key [OF r1 _ h] cfg show ?thesis
    unfolding T_def by blast
qed

subsection \<open>The rate of notifications\<close>


lemma notify_times_first:
  assumes "lastNotify f = 0" and "\<forall>w\<in>set pre. fst w = 0" and "0 < n"
  shows "\<exists>ts. notify_times f (pre @ (n, now) # rest) = now # ts"
  using assms
proof (induction pre arbitrary: f)
  case Nil
  then show ?case by (simp add: Write_notify_def Let_def)
next
  case (Cons w pre)
  obtain k t where w: "w = (k, t)" by (cases w)
  with Cons.prems have "k = 0" by simp
  with w have "notify_times f ((w # pre) @ (n, now) # rest) = notify_times f (pre @ (n, now) # rest)"
    by (simp add: Write_notify_def)
  with Cons.IH [of f] Cons.prems show ?case by simp
qed








subsection \<open>The rename loop\<close>

lemma trace_emit [simp]: "trace (emit ev s) = trace s @ [ev]"
  and files_emit [simp]: "files (emit ev s) = files s"
  and ticks_emit [simp]: "ticks (emit ev s) = ticks s"
  by (simp_all add: emit_def)

lemma lock_run_append:
  "lock_run g (xs @ ys) = (case lock_run g xs of None \<Rightarrow> None | Some g' \<Rightarrow> lock_run g' ys)"
  by (induction xs arbitrary: g) (auto split: option.splits)

lemma stat_then_rename_cases:
  assumes "stat_then_rename env pp dst s = (r, s')"
  obtains
    (renamed) c where "files s dst = None" "files s pp = Some c" "r = Inr (- 1)"
      "files s' = ((files s)(pp := None))(dst \<mapsto> c)"
      "trace s' = trace s @ [EvLock, EvStat dst StatNotExist, EvRename pp dst, EvUnlock]"
      "ticks s' = ticks s"
  | (rename_failed) e where "files s dst = None" "r = Inl e" "files s' = files s"
      "trace s' = trace s @ [EvLock, EvStat dst StatNotExist, EvRename pp dst, EvUnlock]"
      "ticks s' = ticks s"
  | (stat_failed) e where "r = Inl e" "files s' = files s"
      "trace s' = trace s @ [EvLock, EvStat dst (StatErr e), EvUnlock]"
      "ticks s' = ticks s"
  | (found) c where "files s dst = Some c" "r = Inr (int (length c))" "files s' = files s"
      "trace s' = trace s @ [EvLock, EvStat dst (StatSize (length c)), EvUnlock]"
      "ticks s' = ticks s" "fault env (emit EvLock s) = None"
proof (cases "fault env (emit EvLock s)")
  case (Some e)
  with assms have "r = Inl e" "files s' = files s"
      "trace s' = trace s @ [EvLock, EvStat dst (StatErr e), EvUnlock]" "ticks s' = ticks s"
    by (auto simp: stat_then_rename_def os_Stat_def Let_def)
  then show ?thesis by (rule stat_failed)
next
  case None
  show ?thesis
  proof (cases "files s dst")
    case (Some c)
    with None assms have "r = Inr (int (length c))" "files s' = files s"
      "trace s' = trace s @ [EvLock, EvStat dst (StatSize (length c)), EvUnlock]"
      "ticks s' = ticks s"
      by (auto simp: stat_then_rename_def os_Stat_def Let_def)
    with Some None show ?thesis by (intro found)
  next
    case nodst: None
    let ?s1 = "emit (EvStat dst StatNotExist) (emit EvLock s)"
    from None nodst assms have st:
      "(case os_Rename env pp dst ?s1 of
          (Some e, s2) \<Rightarrow> (Inl e, emit EvUnlock s2)
        | (None, s2) \<Rightarrow> (Inr (- 1), emit EvUnlock s2)) = (r, s')"
      by (simp add: stat_then_rename_def os_Stat_def Let_def)
    show ?thesis
    proof (cases "fault env ?s1")
      case (Some e)
      with st have "r = Inl e" "files s' = files s"
        "trace s' = trace s @ [EvLock, EvStat dst StatNotExist, EvRename pp dst, EvUnlock]"
        "ticks s' = ticks s"
        by (auto simp: os_Rename_def)
      with nodst show ?thesis by (intro rename_failed)
    next
      case nofault: None
      show ?thesis
      proof (cases "files s pp")
        case None
        with nofault st have "r = Inl (ErrNotExist pp)" "files s' = files s"
          "trace s' = trace s @ [EvLock, EvStat dst StatNotExist, EvRename pp dst, EvUnlock]"
          "ticks s' = ticks s"
          by (auto simp: os_Rename_def)
        with nodst show ?thesis by (intro rename_failed)
      next
        case (Some c)
        with nofault st have "r = Inr (- 1)" "files s' = ((files s)(pp := None))(dst \<mapsto> c)"
          "trace s' = trace s @ [EvLock, EvStat dst StatNotExist, EvRename pp dst, EvUnlock]"
          "ticks s' = ticks s"
          by (auto simp: os_Rename_def)
        with nodst Some show ?thesis by (intro renamed)
      qed
    qed
  qed
qed

lemma sha256File_effect:
  assumes "sha256File env p s = (r, s')"
  shows "files s' = files s" and "trace s' = trace s @ [EvHash p]" and "ticks s' = ticks s"
    and "\<And>d. r = Inr d \<Longrightarrow> \<exists>c. files s p = Some c \<and> d = sha256 env c"
  using assms by (auto simp: sha256File_def split: option.splits)

lemma computePartialSum_effect:
  assumes "computePartialSum env memo pp s = (r, s')"
  shows "files s' = files s" and "ticks s' = ticks s"
    and "trace s' = trace s @ (if memo = None then [EvHash pp] else [])"
    and "\<And>d. r = Inr d \<Longrightarrow> memo = Some d \<or> (memo = None \<and> (\<exists>c. files s pp = Some c \<and> d = sha256 env c))"
  using assms by (auto simp: computePartialSum_def sha256File_def split: option.splits)

lemma os_Remove_effect:
  assumes "os_Remove env p s = (r, s')"
  shows "trace s' = trace s @ [EvRemove p]" and "ticks s' = ticks s"
    and "r = None \<Longrightarrow> files s' = (files s)(p := None)"
    and "\<And>e. r = Some e \<Longrightarrow> files s' = files s"
  using assms by (auto simp: os_Remove_def split: option.splits)


lemma advancesI:
  assumes "trace s' = trace s @ evs" and "lock_run Unlocked evs = Some Unlocked"
    and "length (filter is_stat evs) \<le> k"
    and "\<And>q c. q \<noteq> pp \<Longrightarrow> files s q = Some c \<Longrightarrow> files s' q = Some c"
  shows "advances pp k s s'"
  using assms unfolding advances_def by blast

lemma advances_refl: "advances pp k s s"
  by (rule advancesI [where evs = "[]"]) simp_all

lemma advances_trans:
  assumes "advances pp j a b" and "advances pp k b c"
  shows "advances pp (j + k) a c"
proof -
  from assms(1) obtain xs where xs: "trace b = trace a @ xs" "lock_run Unlocked xs = Some Unlocked"
    "length (filter is_stat xs) \<le> j"
    and ab: "\<And>q c. q \<noteq> pp \<Longrightarrow> files a q = Some c \<Longrightarrow> files b q = Some c"
    unfolding advances_def by blast
  from assms(2) obtain ys where ys: "trace c = trace b @ ys" "lock_run Unlocked ys = Some Unlocked"
    "length (filter is_stat ys) \<le> k"
    and bc: "\<And>q c'. q \<noteq> pp \<Longrightarrow> files b q = Some c' \<Longrightarrow> files c q = Some c'"
    unfolding advances_def by blast
  show ?thesis
  proof (rule advancesI [where evs = "xs @ ys"])
    show "trace c = trace a @ xs @ ys" using xs ys by simp
    show "lock_run Unlocked (xs @ ys) = Some Unlocked" using xs ys by (simp add: lock_run_append)
    show "length (filter is_stat (xs @ ys)) \<le> j + k" using xs ys by simp
    show "files c q = Some c'" if "q \<noteq> pp" "files a q = Some c'" for q c'
      using that ab bc by blast
  qed
qed

lemma advances_mono: "advances pp j a b \<Longrightarrow> j \<le> k \<Longrightarrow> advances pp k a b"
  unfolding advances_def by (meson order_trans)

lemma stat_then_rename_advances:
  assumes "stat_then_rename env pp dst s = (r, s')"
  shows "advances pp 1 s s'"
  using assms
proof (cases rule: stat_then_rename_cases)
  case (renamed c)
  show ?thesis
  proof (rule advancesI [OF renamed(5)])
    show "files s' q = Some c'" if "q \<noteq> pp" "files s q = Some c'" for q c'
      using that renamed(1,4) by auto
  qed simp_all
next
  case (rename_failed e)
  show ?thesis
    by (rule advancesI [OF rename_failed(4)]) (simp_all add: rename_failed(3))
next
  case (stat_failed e)
  show ?thesis
    by (rule advancesI [OF stat_failed(3)]) (simp_all add: stat_failed(2))
next
  case (found c)
  show ?thesis
    by (rule advancesI [OF found(4)]) (simp_all add: found(3))
qed

lemma sha256File_advances:
  assumes "sha256File env p s = (r, s')"
  shows "advances pp 0 s s'"
  by (rule advancesI [OF sha256File_effect(2) [OF assms]])
     (simp_all add: sha256File_effect(1) [OF assms])

lemma computePartialSum_advances:
  assumes "computePartialSum env memo p s = (r, s')"
  shows "advances pp 0 s s'"
  by (rule advancesI [OF computePartialSum_effect(3) [OF assms]])
     (simp_all add: computePartialSum_effect(1) [OF assms])

lemma os_Remove_advances:
  assumes "os_Remove env pp s = (r, s')"
  shows "advances pp 0 s s'"
proof (rule advancesI [OF os_Remove_effect(1) [OF assms]])
  show "files s' q = Some c" if "q \<noteq> pp" "files s q = Some c" for q c
    using that os_Remove_effect(3,4) [OF assms] by (cases r) auto
qed simp_all

lemma rename_loop_advances:
  "rename_loop env n pp dst fl memo s = (r, s') \<Longrightarrow> advances pp n s s'"
proof (induction n arbitrary: dst memo s)
  case 0
  then show ?case by (simp add: advances_refl)
next
  case (Suc n)
  obtain r1 s1 where st: "stat_then_rename env pp dst s = (r1, s1)" by (metis prod.exhaust)
  note a1 = stat_then_rename_advances [OF st]
  have next1: "advances pp (Suc n) s s'" if "advances pp n s1 s'"
    using advances_trans [OF a1 that] by simp
  have stop1: "advances pp (Suc n) s s'" if "s' = s1"
    using that a1 by (auto intro: advances_mono)
  show ?case
  proof (cases r1)
    case (Inl e)
    with Suc.prems st show ?thesis by (auto intro: stop1)
  next
    case (Inr dstLength)
    show ?thesis
    proof (cases "dstLength < 0")
      case True
      with Inr Suc.prems st show ?thesis by (auto intro: stop1)
    next
      case nonneg: False
      show ?thesis
      proof (cases "dstLength = fl")
        case False
        with nonneg Inr Suc.prems st
        have "rename_loop env n pp (NextFilename env dst) fl memo s1 = (r, s')" by simp
        from next1 [OF Suc.IH [OF this]] show ?thesis .
      next
        case True
        obtain r2 s2 where cp: "computePartialSum env memo pp s1 = (r2, s2)" by (metis prod.exhaust)
        note a2 = computePartialSum_advances [OF cp, of pp]
        obtain r3 s3 where sh: "sha256File env dst s2 = (r3, s3)" by (metis prod.exhaust)
        note a3 = sha256File_advances [OF sh, of pp]
        obtain r4 s4 where rm: "os_Remove env pp s3 = (r4, s4)" by (metis prod.exhaust)
        note a4 = os_Remove_advances [OF rm]
        have a12: "advances pp 1 s s2" using advances_trans [OF a1 a2] by simp
        have a13: "advances pp 1 s s3" using advances_trans [OF a12 a3] by simp
        have a14: "advances pp 1 s s4" using advances_trans [OF a13 a4] by simp
        from True nonneg Inr Suc.prems st cp sh rm
        consider "s' = s2" | "s' = s3" | "s' = s4"
          | ps where "rename_loop env n pp (NextFilename env dst) fl (Some ps) s3 = (r, s')"
          by (auto split: sum.splits option.splits if_splits)
        then show ?thesis
        proof cases
          case 1 with a12 show ?thesis by (auto intro: advances_mono)
        next
          case 2 with a13 show ?thesis by (auto intro: advances_mono)
        next
          case 3 with a14 show ?thesis by (auto intro: advances_mono)
        next
          case (4 ps)
          from advances_trans [OF a13 Suc.IH [OF 4]] show ?thesis by simp
        qed
      qed
    qed
  qed
qed

text \<open>When the operating system never fails.\<close>

lemma no_fault: "\<forall>k. io_fault env k = None \<Longrightarrow> fault env s = None"
  by (simp add: fault_def)

lemma stat_then_rename_found:
  assumes "\<forall>k. io_fault env k = None" and "files s dst = Some c"
  shows "stat_then_rename env pp dst s =
           (Inr (int (length c)),
            emit EvUnlock (emit (EvStat dst (StatSize (length c))) (emit EvLock s)))"
  using assms by (simp add: stat_then_rename_def os_Stat_def Let_def no_fault)

lemma sha256File_found:
  assumes "\<forall>k. io_fault env k = None" and "files s p = Some c"
  shows "sha256File env p s = (Inr (sha256 env c), emit (EvHash p) s)"
  using assms by (simp add: sha256File_def no_fault)


lemma computePartialSum_found:
  assumes "\<forall>k. io_fault env k = None" and "files s pp = Some p"
    and "memo = None \<or> memo = Some (sha256 env p)"
  shows "computePartialSum env memo pp s =
           (Inr (sha256 env p), if memo = None then emit (EvHash pp) s else s)"
  using assms by (auto simp: computePartialSum_def sha256File_found)

text \<open>One collision with other content: the loop goes on with the next name.\<close>

lemma rename_loop_skip:
  assumes nf: "\<forall>k. io_fault env k = None" and pp: "files s pp = Some p"
    and memo: "memo = None \<or> memo = Some (sha256 env p)"
    and c: "files s dst = Some c"
    and other: "int (length c) \<noteq> fl \<or> sha256 env c \<noteq> sha256 env p"
  shows "\<exists>memo' s1 evs.
           rename_loop env (Suc n) pp dst fl memo s =
             rename_loop env n pp (NextFilename env dst) fl memo' s1 \<and>
           files s1 = files s \<and> (memo' = None \<or> memo' = Some (sha256 env p)) \<and>
           trace s1 = trace s @ evs \<and> length (filter is_stat evs) = 1"
proof (cases "int (length c) = fl")
  case False
  let ?s1 = "emit EvUnlock (emit (EvStat dst (StatSize (length c))) (emit EvLock s))"
  from False have "rename_loop env (Suc n) pp dst fl memo s =
      rename_loop env n pp (NextFilename env dst) fl memo ?s1"
    by (simp add: stat_then_rename_found [OF nf c])
  moreover have "files ?s1 = files s" by simp
  moreover have "trace ?s1 = trace s @ [EvLock, EvStat dst (StatSize (length c)), EvUnlock]" by simp
  ultimately show ?thesis using memo
    by (intro exI [of _ memo] exI [of _ ?s1] exI [of _ "[EvLock, EvStat dst (StatSize (length c)), EvUnlock]"]) simp
next
  case True
  with other have ne: "sha256 env c \<noteq> sha256 env p" by simp
  let ?s1 = "emit EvUnlock (emit (EvStat dst (StatSize (length c))) (emit EvLock s))"
  let ?s2 = "if memo = None then emit (EvHash pp) ?s1 else ?s1"
  let ?s3 = "emit (EvHash dst) ?s2"
  have f1: "files ?s1 pp = Some p" using pp by simp
  have f2: "files ?s2 dst = Some c" using c by simp
  from True ne have "rename_loop env (Suc n) pp dst fl memo s =
      rename_loop env n pp (NextFilename env dst) fl (Some (sha256 env p)) ?s3"
    by (simp add: stat_then_rename_found [OF nf c] computePartialSum_found [OF nf f1 memo]
                  sha256File_found [OF nf f2])
  moreover have "files ?s3 = files s" by simp
  moreover have "trace ?s3 = trace s @ ([EvLock, EvStat dst (StatSize (length c)), EvUnlock] @
        (if memo = None then [EvHash pp] else []) @ [EvHash dst])" by simp
  ultimately show ?thesis
    by (intro exI [of _ "Some (sha256 env p)"] exI [of _ ?s3]
          exI [of _ "[EvLock, EvStat dst (StatSize (length c)), EvUnlock] @
        (if memo = None then [EvHash pp] else []) @ [EvHash dst]"]) simp
qed

lemma rename_loop_skips:
  assumes nf: "\<forall>k. io_fault env k = None" and pp: "files s pp = Some p"
    and memo: "memo = None \<or> memo = Some (sha256 env p)"
    and col: "\<forall>i<j. \<exists>c. files s ((NextFilename env ^^ i) dst) = Some c \<and>
                 (int (length c) \<noteq> fl \<or> sha256 env c \<noteq> sha256 env p)"
  shows "\<exists>memo' s1 evs.
           rename_loop env (j + n) pp dst fl memo s =
             rename_loop env n pp ((NextFilename env ^^ j) dst) fl memo' s1 \<and>
           files s1 = files s \<and> (memo' = None \<or> memo' = Some (sha256 env p)) \<and>
           trace s1 = trace s @ evs \<and> length (filter is_stat evs) = j"
  using pp memo col
proof (induction j arbitrary: dst memo s)
  case 0
  then show ?case by (intro exI [of _ memo] exI [of _ s] exI [of _ "[]"]) simp
next
  case (Suc j)
  from Suc.prems(3) obtain c where c: "files s dst = Some c"
    and other: "int (length c) \<noteq> fl \<or> sha256 env c \<noteq> sha256 env p"
    by force
  from rename_loop_skip [OF nf Suc.prems(1,2) c other, of "j + n"]
  obtain memo1 s1 evs1 where
    one: "rename_loop env (Suc (j + n)) pp dst fl memo s =
            rename_loop env (j + n) pp (NextFilename env dst) fl memo1 s1"
    and f1: "files s1 = files s" and m1: "memo1 = None \<or> memo1 = Some (sha256 env p)"
    and t1: "trace s1 = trace s @ evs1" and n1: "length (filter is_stat evs1) = 1"
    by blast
  have col': "\<forall>i<j. \<exists>c. files s1 ((NextFilename env ^^ i) (NextFilename env dst)) = Some c \<and>
                 (int (length c) \<noteq> fl \<or> sha256 env c \<noteq> sha256 env p)"
  proof (intro allI impI)
    fix i assume "i < j"
    then have "Suc i < Suc j" by simp
    with Suc.prems(3) have "\<exists>c. files s ((NextFilename env ^^ Suc i) dst) = Some c \<and>
                 (int (length c) \<noteq> fl \<or> sha256 env c \<noteq> sha256 env p)" by blast
    then show "\<exists>c. files s1 ((NextFilename env ^^ i) (NextFilename env dst)) = Some c \<and>
                 (int (length c) \<noteq> fl \<or> sha256 env c \<noteq> sha256 env p)"
      by (simp add: f1 funpow_swap1)
  qed
  have pp1: "files s1 pp = Some p" using Suc.prems(1) f1 by simp
  from Suc.IH [OF pp1 m1 col']
  obtain memo2 s2 evs2 where
    two: "rename_loop env (j + n) pp (NextFilename env dst) fl memo1 s1 =
            rename_loop env n pp ((NextFilename env ^^ j) (NextFilename env dst)) fl memo2 s2"
    and f2: "files s2 = files s1" and m2: "memo2 = None \<or> memo2 = Some (sha256 env p)"
    and t2: "trace s2 = trace s1 @ evs2" and n2: "length (filter is_stat evs2) = j"
    by blast
  show ?case
  proof (intro exI [of _ memo2] exI [of _ s2] exI [of _ "evs1 @ evs2"] conjI)
    show "rename_loop env (Suc j + n) pp dst fl memo s =
            rename_loop env n pp ((NextFilename env ^^ Suc j) dst) fl memo2 s2"
      using one two by (simp add: funpow_swap1)
    show "files s2 = files s" using f1 f2 by simp
    show "memo2 = None \<or> memo2 = Some (sha256 env p)" by (rule m2)
    show "trace s2 = trace s @ evs1 @ evs2" using t1 t2 by simp
    show "length (filter is_stat (evs1 @ evs2)) = Suc j" using n1 n2 by simp
  qed
qed




subsection \<open>The bound on retries\<close>

lemma PutFile_publish_loop:
  assumes "\<not> avoidPartialRename a"
    and "rename_loop env 10 (partPath a) (dstPath a) fl None s = (r, s1)"
  shows "PutFile_publish env m a fl s =
           (case r of Some res \<Rightarrow> (res, m, s1)
            | None \<Rightarrow> ((fl, None), m\<lparr>knownEmpty := False\<rparr>, emit EvNotify s1))"
  using assms by (simp add: PutFile_publish_def split: option.splits)

text \<open>
  C8. A call that gets to the rename loop makes at most 10 stats, whatever the operating
  system answers. When the operating system does not fail and each of the ten candidate
  names, the destination and its nine successors under \<open>NextFilename\<close>, is taken by a
  file of another length or another digest than the partial file, all ten are tried, the
  call returns the error of line 237, and no file has changed: the partial file is
  where it was.
\<close>

theorem PutFile_publish_retry_bound:
  assumes "\<not> avoidPartialRename a" and "PutFile_publish env m a fl s = (res, m', s')"
  shows "(\<exists>evs. trace s' = trace s @ evs \<and> length (filter is_stat evs) \<le> 10) \<and>
         ((\<forall>k. io_fault env k = None) \<and>
          (\<exists>p. files s (partPath a) = Some p \<and>
               (\<forall>i<10. \<exists>c. files s ((NextFilename env ^^ i) (dstPath a)) = Some c \<and>
                           (int (length c) \<noteq> fl \<or> sha256 env c \<noteq> sha256 env p))) \<longrightarrow>
          res = (0, Some ErrTooManyRetries) \<and> files s' = files s \<and>
          (\<exists>evs. trace s' = trace s @ evs \<and> length (filter is_stat evs) = 10))"
proof -
  obtain r s1 where loop: "rename_loop env 10 (partPath a) (dstPath a) fl None s = (r, s1)"
    by (metis prod.exhaust)
  note pub = PutFile_publish_loop [OF assms(1) loop, of m]
  from rename_loop_advances [OF loop] obtain evs where
    evs: "trace s1 = trace s @ evs" "length (filter is_stat evs) \<le> 10"
    unfolding advances_def by blast
  have bound: "\<exists>evs. trace s' = trace s @ evs \<and> length (filter is_stat evs) \<le> 10"
  proof (cases r)
    case None
    with pub assms(2) have "trace s' = trace s @ (evs @ [EvNotify])"
      using evs by auto
    moreover have "length (filter is_stat (evs @ [EvNotify])) \<le> 10" using evs by simp
    ultimately show ?thesis by blast
  next
    case (Some x)
    with pub assms(2) evs show ?thesis by auto
  qed
  have "res = (0, Some ErrTooManyRetries) \<and> files s' = files s \<and>
          (\<exists>evs. trace s' = trace s @ evs \<and> length (filter is_stat evs) = 10)"
    if nf: "\<forall>k. io_fault env k = None" and p: "files s (partPath a) = Some p"
      and col: "\<forall>i<10. \<exists>c. files s ((NextFilename env ^^ i) (dstPath a)) = Some c \<and>
                           (int (length c) \<noteq> fl \<or> sha256 env c \<noteq> sha256 env p)" for p
  proof -
    from rename_loop_skips [OF nf p _ col, of None 0]
    obtain memo' s2 evs2 where
      "rename_loop env 10 (partPath a) (dstPath a) fl None s =
         rename_loop env 0 (partPath a) ((NextFilename env ^^ 10) (dstPath a)) fl memo' s2"
      and f: "files s2 = files s" and t: "trace s2 = trace s @ evs2"
      and n: "length (filter is_stat evs2) = 10"
      by auto
    with loop have "r = Some (0, Some ErrTooManyRetries)" "s1 = s2" by simp_all
    with pub assms(2) f t n show ?thesis by auto
  qed
  with bound show ?thesis by blast
qed

text \<open>Ten names in a row taken by other content.\<close>

theorem PutFile_publish_retry_bound_witness:
  "fst (PutFile_publish demo_env demo_manager demo_admitted 5 demo_crowded) =
     (0, Some ErrTooManyRetries) \<and>
   files (snd (snd (PutFile_publish demo_env demo_manager demo_admitted 5 demo_crowded))) =
     files demo_crowded \<and>
   files demo_crowded ''d/a.y.partial'' = Some ''hello''"
proof -
  define P where "P = PutFile_publish demo_env demo_manager demo_admitted 5 demo_crowded"
  have run: "PutFile_publish demo_env demo_manager demo_admitted 5 demo_crowded =
               (fst P, fst (snd P), snd (snd P))"
    by (simp add: P_def)
  have h1: "\<not> avoidPartialRename demo_admitted" by (simp add: demo_admitted_def)
  have nf: "\<forall>k. io_fault demo_env k = None" by (simp add: demo_env_def)
  have p: "files demo_crowded (partPath demo_admitted) = Some ''hello''"
    by code_simp
  have "\<forall>i\<in>set [0..<10]. files demo_crowded ((NextFilename demo_env ^^ i) (dstPath demo_admitted)) = Some ''other''"
    by code_simp
  then have col: "\<forall>i<10. \<exists>c. files demo_crowded ((NextFilename demo_env ^^ i) (dstPath demo_admitted)) = Some c \<and>
                (int (length c) \<noteq> 5 \<or> sha256 demo_env c \<noteq> sha256 demo_env ''hello'')"
    by (simp add: demo_env_def)
  from PutFile_publish_retry_bound [OF h1 run] nf p col
  have "fst P = (0, Some ErrTooManyRetries) \<and> files (snd (snd P)) = files demo_crowded"
    by blast
  moreover have "files demo_crowded ''d/a.y.partial'' = Some ''hello''" by code_simp
  ultimately show ?thesis unfolding P_def by simp
qed

subsection \<open>The same content under the same name\<close>







subsection \<open>A call that starts at offset 0\<close>

lemma write_at_inside:
  "pos \<le> length c \<Longrightarrow> write_at c pos q = take pos c @ q @ drop (pos + length q) c"
  by (simp add: write_at_def)

lemma content_update [simp]: "content (s\<lparr>files := (files s)(p \<mapsto> c)\<rparr>) p = c"
  by (simp add: content_def)

lemma content_emit [simp]: "content (emit ev s) p = content s p"
  by (simp add: content_def)

lemma content_ticks [simp]: "content (s\<lparr>ticks := t\<rparr>) p = content s p"
  by (simp add: content_def)

lemma Write_effect:
  assumes "Write env inF f p s = ((n, ew), inF', f', s')"
    and "hpos f \<le> length (content s (hpath f))"
  shows "n \<le> length p" and "hpath f' = hpath f" and "hpos f' = hpos f + n"
    and "content s' (hpath f) =
           take (hpos f) (content s (hpath f)) @ take n p @ drop (hpos f + n) (content s (hpath f))"
    and "\<exists>evs. trace s' = trace s @ evs \<and> (\<forall>ev\<in>set evs. \<not> is_seek_or_truncate ev)"
proof -
  let ?c = "content s (hpath f)"
  let ?k = "(case fault env s of None \<Rightarrow> length p
             | Some e \<Rightarrow> min (short_write env (length (trace s))) (length p))"
  let ?s1 = "emit (EvWrite (hpath f) ?k)
               (s\<lparr>files := (files s)(hpath f \<mapsto> write_at ?c (hpos f) (take ?k p))\<rparr>)"
  have fw: "file_Write env f p s = ((?k, fault env s), f\<lparr>hpos := hpos f + ?k\<rparr>, ?s1)"
    by (simp add: file_Write_def Let_def)
  have k: "?k \<le> length p" by (simp split: option.splits)
  from assms(1) fw have n: "n = ?k" and f': "f' = f\<lparr>hpos := hpos f + ?k\<rparr>"
    by (auto simp: Write_def split: if_splits prod.splits)
  show "n \<le> length p" using n k by simp
  show "hpath f' = hpath f" using f' by simp
  show "hpos f' = hpos f + n" using f' n by simp
  have c1: "content ?s1 (hpath f) = take (hpos f) ?c @ take ?k p @ drop (hpos f + ?k) ?c"
    using assms(2) k by (simp add: write_at_inside min_absorb2)
  from assms(1) fw have "content s' (hpath f) = content ?s1 (hpath f)"
    by (auto simp: Write_def Now_def split: if_splits prod.splits)
  with c1 n show "content s' (hpath f) =
           take (hpos f) ?c @ take n p @ drop (hpos f + n) ?c" by simp
  from assms(1) fw have "trace s' = trace s @ [EvWrite (hpath f) ?k] \<or>
        trace s' = trace s @ [EvWrite (hpath f) ?k, EvNotify]"
    by (auto simp: Write_def Now_def split: if_splits prod.splits)
  then show "\<exists>evs. trace s' = trace s @ evs \<and> (\<forall>ev\<in>set evs. \<not> is_seek_or_truncate ev)"
    by (elim disjE) (rule exI [of _ "[EvWrite (hpath f) ?k]"], simp,
                     rule exI [of _ "[EvWrite (hpath f) ?k, EvNotify]"], simp)
qed

lemma io_Copy_effect:
  assumes "io_Copy env inF f cs re w s = ((w', cerr), inF', f', s')"
    and "hpos f \<le> length (content s (hpath f))"
  shows "w \<le> w' \<and>
         content s' (hpath f) =
           take (hpos f) (content s (hpath f)) @ take (nat (w' - w)) (concat cs) @
           drop (hpos f + nat (w' - w)) (content s (hpath f)) \<and>
         (\<exists>evs. trace s' = trace s @ evs \<and> (\<forall>ev\<in>set evs. \<not> is_seek_or_truncate ev))"
  using assms
proof (induction cs arbitrary: inF f w s)
  case Nil
  then show ?case by simp
next
  case (Cons p ps)
  show ?case
  proof (cases "p = []")
    case True
    with Cons.prems(1) have "io_Copy env inF f ps re w s = ((w', cerr), inF', f', s')" by simp
    from Cons.IH [OF this Cons.prems(2)] True show ?thesis by simp
  next
    case False
    obtain n ew inF1 f1 s1 where wr: "Write env inF f p s = ((n, ew), inF1, f1, s1)"
      by (metis prod.exhaust)
    note e = Write_effect [OF wr Cons.prems(2)]
    let ?c = "content s (hpath f)"
    let ?pos = "hpos f"
    from e(5) obtain evs1 where t1: "trace s1 = trace s @ evs1"
      and ok1: "\<forall>ev\<in>set evs1. \<not> is_seek_or_truncate ev" by blast
    show ?thesis
    proof (cases "ew = None \<and> n = length p")
      case stop: False
      with False wr Cons.prems(1) have w': "w' = w + int n" and s': "s' = s1"
        by (auto split: option.splits if_splits)
      have "take n (concat (p # ps)) = take n p" using e(1) by simp
      with w' s' e(4) t1 ok1 show ?thesis by auto
    next
      case go: True
      with False wr Cons.prems(1)
      have rec: "io_Copy env inF1 f1 ps re (w + int n) s1 = ((w', cerr), inF', f', s')"
        by simp
      from go have n: "n = length p" by simp
      have c1: "content s1 (hpath f1) = take ?pos ?c @ p @ drop (?pos + length p) ?c"
        using e(2,4) n by simp
      have pos1: "hpos f1 = ?pos + length p" using e(3) n by simp
      have pre: "hpos f1 \<le> length (content s1 (hpath f1))"
        using Cons.prems(2) by (simp add: c1 pos1)
      note IH = Cons.IH [OF rec pre]
      let ?d = "nat (w' - (w + int n))"
      from IH have le: "w + int n \<le> w'" by simp
      then have d: "nat (w' - w) = length p + ?d" using n by simp
      from IH have "content s' (hpath f1) =
          take (hpos f1) (content s1 (hpath f1)) @ take ?d (concat ps) @
          drop (hpos f1 + ?d) (content s1 (hpath f1))" by simp
      also have "take (hpos f1) (content s1 (hpath f1)) = take ?pos ?c @ p"
        using Cons.prems(2) by (simp add: c1 pos1)
      also have "drop (hpos f1 + ?d) (content s1 (hpath f1)) = drop (?pos + length p + ?d) ?c"
        using Cons.prems(2) by (simp add: c1 pos1 add.commute)
      finally have "content s' (hpath f) =
          take ?pos ?c @ take (nat (w' - w)) (concat (p # ps)) @ drop (?pos + nat (w' - w)) ?c"
        using e(2) d by (simp add: add.assoc)
      moreover from IH obtain evs2 where "trace s' = trace s1 @ evs2"
        "\<forall>ev\<in>set evs2. \<not> is_seek_or_truncate ev" by blast
      with t1 ok1 have "\<exists>evs. trace s' = trace s @ evs \<and> (\<forall>ev\<in>set evs. \<not> is_seek_or_truncate ev)"
        by (intro exI [of _ "evs1 @ evs2"]) auto
      moreover from le have "w \<le> w'" by simp
      ultimately show ?thesis by blast
    qed
  qed
qed

text \<open>
  C10. A call with offset 0, once its partial file is open: the open has not changed the
  bytes of the file; the resume step of lines 145 to 159 does nothing, so the copy
  starts at position 0 of the file as it was found; from the open to the end of the copy
  there is no seek and no truncate; and when the copy has written \<open>copyLength\<close> bytes,
  the file holds these bytes followed by what it held before beyond \<open>copyLength\<close>. A
  partial file that was longer than what is copied keeps its tail.
\<close>

theorem PutFile_offset_zero_keeps_tail:
  assumes "os_OpenFile env pp s = (Inr f, s1)"
    and "io_Copy env inF f cs re 0 s1 = ((copyLength, cerr), inF', f', s2)"
  shows "PutFile_resume env f 0 s1 = (Inr f, s1) \<and>
         content s1 pp = content s pp \<and>
         content s2 pp =
           take (nat copyLength) (concat cs) @ drop (nat copyLength) (content s pp) \<and>
         (\<exists>evs. trace s2 = trace s @ EvOpen pp # evs \<and>
                (\<forall>ev\<in>set evs. \<not> is_seek_or_truncate ev))"
proof -
  from assms(1) have f: "f = \<lparr>hpath = pp, hpos = 0\<rparr>"
    and s1: "s1 = emit (EvOpen pp) (s\<lparr>files := (files s)(pp \<mapsto> content s pp)\<rparr>)"
    by (auto simp: os_OpenFile_def split: option.splits)
  have c1: "content s1 pp = content s pp" by (simp add: s1)
  have t1: "trace s1 = trace s @ [EvOpen pp]" by (simp add: s1)
  have pre: "hpos f \<le> length (content s1 (hpath f))" by (simp add: f)
  from io_Copy_effect [OF assms(2) pre] f c1
  have c2: "content s2 pp =
      take (nat copyLength) (concat cs) @ drop (nat copyLength) (content s pp)"
    and "\<exists>evs. trace s2 = trace s1 @ evs \<and> (\<forall>ev\<in>set evs. \<not> is_seek_or_truncate ev)"
    by simp_all
  then obtain evs where "trace s2 = trace s @ EvOpen pp # evs"
    "\<forall>ev\<in>set evs. \<not> is_seek_or_truncate ev"
    using t1 by auto
  moreover have "PutFile_resume env f 0 s1 = (Inr f, s1)"
    by (simp add: PutFile_resume_def)
  ultimately show ?thesis using c1 c2 by blast
qed

text \<open>
  A partial file of ten bytes is there and three bytes arrive with offset 0: the file
  keeps its last seven bytes, and this is what \<open>PutFile\<close> publishes, returning the length 3.
\<close>

theorem PutFile_offset_zero_keeps_tail_witness:
  "content (snd (snd (snd (io_Copy demo_env demo_inFile \<lparr>hpath = ''d/a.x.partial'', hpos = 0\<rparr>
                             [''abc''] None 0
                             (snd (os_OpenFile demo_env ''d/a.x.partial'' demo_stale))))))
     ''d/a.x.partial'' = ''abcLOWORLD'' \<and>
   fst (PutFile demo_env (Some demo_manager) demo_stale ''x'' ''a'' (demo_reader [''abc'']) 0 3) =
     (3, None) \<and>
   files (snd (snd (PutFile demo_env (Some demo_manager) demo_stale ''x'' ''a''
                      (demo_reader [''abc'']) 0 3))) ''d/a'' = Some ''abcLOWORLD''"
proof -
  define f0 where "f0 = \<lparr>hpath = ''d/a.x.partial'', hpos = 0\<rparr>"
  define B where "B = os_OpenFile demo_env ''d/a.x.partial'' demo_stale"
  define D where "D = io_Copy demo_env demo_inFile f0 [''abc''] None 0 (snd B)"
  have "fst B = Inr f0"
    unfolding B_def f0_def by code_simp
  then have h1: "os_OpenFile demo_env ''d/a.x.partial'' demo_stale = (Inr f0, snd B)"
    unfolding B_def by (rule pairI)
  have h2: "io_Copy demo_env demo_inFile f0 [''abc''] None 0 (snd B) =
              ((fst (fst D), snd (fst D)), fst (snd D), fst (snd (snd D)), snd (snd (snd D)))"
    unfolding D_def by simp
  have n: "fst (fst D) = 3"
    unfolding D_def B_def f0_def by code_simp
  have old: "content demo_stale ''d/a.x.partial'' = ''HELLOWORLD''"
    by code_simp
  from PutFile_offset_zero_keeps_tail [OF h1 h2] n old
  have "content (snd (snd (snd D))) ''d/a.x.partial'' = ''abcLOWORLD''"
    by simp
  moreover have "fst (PutFile demo_env (Some demo_manager) demo_stale ''x'' ''a'' (demo_reader [''abc'']) 0 3) =
     (3, None) \<and>
   files (snd (snd (PutFile demo_env (Some demo_manager) demo_stale ''x'' ''a''
                      (demo_reader [''abc'']) 0 3))) ''d/a'' = Some ''abcLOWORLD''"
    by code_simp
  ultimately show ?thesis
    unfolding D_def B_def f0_def by simp
qed

end
